theory Spec2Isabelle
  imports Main "HOL-Library.Word" "HOL-Library.Sublist"
begin

section \<open>Command-line validation (album.c, lines 27-88)\<close>

type_synonym byte = "8 word"

definition jpg :: "byte list" where
  "jpg = [0xff, 0xd8]"

definition png :: "byte list" where
  "png = [0x89, 0x50, 0x4e, 0x47, 0x0d, 0x0a, 0x1a, 0x0a]"

definition bmp :: "byte list" where
  "bmp = [0x42, 0x4d]"

definition gif :: "byte list" where
  "gif = [0x47, 0x49, 0x46]"

text \<open>\<^verbatim>\<open>header_is_img\<close>: the argument is the 8 byte array \<^verbatim>\<open>bytes[8]\<close>.\<close>

definition header_is_img :: "byte list \<Rightarrow> bool" where
  "header_is_img bytes \<longleftrightarrow>
     (bytes ! 0 = jpg ! 0 \<and> bytes ! 1 = jpg ! 1) \<or>
     (bytes ! 0 = png ! 0 \<and> bytes ! 1 = png ! 1 \<and> bytes ! 2 = png ! 2 \<and> bytes ! 3 = png ! 3 \<and>
      bytes ! 4 = png ! 4 \<and> bytes ! 5 = png ! 5 \<and> bytes ! 6 = png ! 6 \<and> bytes ! 7 = png ! 7) \<or>
     (bytes ! 0 = bmp ! 0 \<and> bytes ! 1 = bmp ! 1) \<or>
     (bytes ! 0 = gif ! 0 \<and> bytes ! 1 = gif ! 1 \<and> bytes ! 2 = gif ! 2)"

text \<open>
  \<^verbatim>\<open>fread(bytes, 8, 1, fp)\<close> into the local array \<^verbatim>\<open>bytes\<close>, which the source does not
  initialise: \<open>junk\<close> is what the array held before the call. The bytes the file has
  (at most 8) overwrite the front of the array; the rest keeps its old contents.
\<close>

definition fread8 :: "byte list \<Rightarrow> byte list \<Rightarrow> byte list" where
  "fread8 junk content = take 8 content @ drop (length content) (take 8 junk)"

text \<open>
  \<^verbatim>\<open>invalid_img\<close>: the file is \<open>None\<close> when \<^verbatim>\<open>fopen(path, "r")\<close> returns NULL, and its
  contents otherwise.
\<close>

definition invalid_img :: "byte list \<Rightarrow> byte list option \<Rightarrow> int" where
  "invalid_img junk file =
     (case file of
        None \<Rightarrow> - 1
      | Some content \<Rightarrow> if \<not> header_is_img (fread8 junk content) then - 1 else 0)"

definition newline :: char where
  "newline = CHR 0x0A"

text \<open>The loop of \<^verbatim>\<open>validate\<close> over \<^verbatim>\<open>argv[1..argc-1]\<close>; the result is what was printed on
  stderr and the return value.\<close>

fun validate_loop ::
  "(string \<Rightarrow> byte list option) \<Rightarrow> (string \<Rightarrow> byte list) \<Rightarrow> string list \<Rightarrow> string list \<times> int" where
  "validate_loop fs junk [] = ([], 0)"
| "validate_loop fs junk (a # as) =
     (if invalid_img (junk a) (fs a) \<noteq> 0
      then ([''Error: one (or more) img is not a valid image or path: '' @ a @ [newline]], - 1)
      else validate_loop fs junk as)"

definition validate ::
  "(string \<Rightarrow> byte list option) \<Rightarrow> (string \<Rightarrow> byte list) \<Rightarrow> string list \<Rightarrow> string list \<times> int" where
  "validate fs junk argv =
     (if length argv \<le> 1 then ([''Usage: ./album [img]+'' @ [newline]], - 1)
      else validate_loop fs junk (tl argv))"

section \<open>User input (demo.c) and the rotation answer (album.c, lines 264-298)\<close>

definition STRING_LEN :: nat where
  "STRING_LEN = 50"

text \<open>A buffer is modelled by the C string it holds: the characters before the first
  NUL.\<close>

definition cstr :: "string \<Rightarrow> string" where
  "cstr b = takeWhile (\<lambda>c. c \<noteq> CHR 0x00) b"

text \<open>
  \<^verbatim>\<open>fgets(buffer, len, stdin)\<close>: \<open>inp\<close> is the pending input. At end of input the buffer
  is left as it was; otherwise it holds the first line with its newline, cut to
  \<open>len - 1\<close> characters.
\<close>

definition fgets :: "string \<Rightarrow> nat \<Rightarrow> string \<Rightarrow> string" where
  "fgets buffer len inp =
     (if inp = [] then cstr buffer
      else cstr (take (len - 1)
             (takeWhile (\<lambda>c. c \<noteq> newline) inp @ (if newline \<in> set inp then [newline] else []))))"

text \<open>\<^verbatim>\<open>input_string\<close>: the buffer is \<open>None\<close> when the pointer is NULL.\<close>

definition input_string :: "string option \<Rightarrow> nat \<Rightarrow> string \<Rightarrow> int \<times> string option" where
  "input_string buffer len inp =
     (case buffer of
        None \<Rightarrow> (- 1, None)
      | Some old \<Rightarrow>
          (let b = fgets old len inp;
               fetched = length b;
               rc = (if fetched + 1 \<ge> len then - 1 else 0)
           in (rc, Some (if fetched \<noteq> 0 \<and> last b = newline then butlast b else b))))"

text \<open>Lines 249-257, the helper child of \<^verbatim>\<open>ask_user\<close>: what it writes to the parent after
  one prompt; \<open>old\<close> is what the \<^verbatim>\<open>malloc\<close>ed buffer held.\<close>

definition helper_answer :: "string \<Rightarrow> string \<Rightarrow> string" where
  "helper_answer old inp =
     (case snd (input_string (Some old) STRING_LEN inp) of Some b \<Rightarrow> b | None \<Rightarrow> cstr old)"

text \<open>What the environment gives to one step of a process: a call that succeeds, a
  call that fails, the text a read delivers, or what \<^verbatim>\<open>waitpid\<close> says about the slots
  of the pid array that were never written.\<close>

datatype outcome = Ok | Err | Reply string | Junk "bool list"

definition text_of :: "outcome \<Rightarrow> string" where
  "text_of oc = (case oc of Reply r \<Rightarrow> r | _ \<Rightarrow> [])"

definition junk_of :: "outcome \<Rightarrow> bool list" where
  "junk_of oc = (case oc of Junk bs \<Rightarrow> bs | _ \<Rightarrow> [])"

text \<open>
  \<^verbatim>\<open>ask_user\<close>, the parent's side: \<open>Err\<close> is a failed \<^verbatim>\<open>pipe\<close> or \<^verbatim>\<open>fork\<close>; otherwise the
  text is what \<^verbatim>\<open>readbuf\<close> holds after the read from the helper child, and \<^verbatim>\<open>strcmp\<close>
  compares the C string in it.
\<close>

definition ask_user :: "outcome \<Rightarrow> int" where
  "ask_user oc =
     (if oc = Err then - 1
      else if cstr (text_of oc) = ''1'' then 1
      else if cstr (text_of oc) = ''2'' then 2
      else 0)"

section \<open>The external collaborator (album.c, lines 106-188)\<close>

text \<open>A call of \<^verbatim>\<open>resize\<close>, \<^verbatim>\<open>display\<close> or \<^verbatim>\<open>rotate\<close>, each of which forks a child that
  runs \<^verbatim>\<open>magick\<close>.\<close>

datatype call = Resize string string string | Display string | Rotate string string int

text \<open>The argument vector the forked child passes to \<^verbatim>\<open>execlp\<close>.\<close>

fun execlp_args :: "call \<Rightarrow> string list" where
  "execlp_args (Resize img rename sz) = [''magick'', ''convert'', ''-resize'', sz, img, rename]"
| "execlp_args (Display img) = [''magick'', ''display'', img]"
| "execlp_args (Rotate img rename rot_dir) =
     [''magick'', ''convert'', ''-rotate'',
      (if rot_dir = 1 then ''90'' else if rot_dir = 2 then ''-90'' else ''0''), img, rename]"

text \<open>\<^verbatim>\<open>strrchr\<close>: the position of the last occurrence.\<close>

fun strrchr :: "string \<Rightarrow> char \<Rightarrow> nat option" where
  "strrchr [] c = None"
| "strrchr (x # xs) c =
     (case strrchr xs c of
        Some p \<Rightarrow> Some (Suc p)
      | None \<Rightarrow> if x = c then Some 0 else None)"

text \<open>Lines 641-653 of \<^verbatim>\<open>process\<close>: the names of the two derived files.\<close>

definition img_of :: "string \<Rightarrow> string" where
  "img_of path = (case strrchr path (CHR ''/'') of Some p \<Rightarrow> drop (Suc p) path | None \<Rightarrow> path)"

definition thumb_name :: "string \<Rightarrow> string" where
  "thumb_name path = ''thumb_'' @ img_of path"

definition med_name :: "string \<Rightarrow> string" where
  "med_name path = ''med_'' @ img_of path"

text \<open>Lines 540-550 of \<^verbatim>\<open>process_img\<close>.\<close>

definition rotate_calls :: "string \<Rightarrow> string \<Rightarrow> int \<Rightarrow> call list" where
  "rotate_calls thumb med rot_dir =
     (if rot_dir > 0 then [Rotate thumb thumb rot_dir, Rotate med med rot_dir] else [])"

section \<open>The report file (album.c, lines 351-393)\<close>

definition dquote :: char where
  "dquote = CHR 0x22"

text \<open>
  \<^verbatim>\<open>fopen("index.html", mode)\<close> for writing: the file is \<open>None\<close> while it does not exist.
  The result is \<open>None\<close> when the call returns NULL, and otherwise the contents the
  stream's output is added to.
\<close>

definition fopen :: "string option \<Rightarrow> string \<Rightarrow> outcome \<Rightarrow> string option" where
  "fopen file mode oc =
     (if oc = Err then None
      else if mode = ''w'' then Some []
      else Some (case file of None \<Rightarrow> [] | Some c \<Rightarrow> c))"

definition link_block :: "string \<Rightarrow> string \<Rightarrow> string" where
  "link_block med thumb =
     ''<a href='' @ [dquote] @ med @ [dquote] @ ''><img src='' @ [dquote] @ thumb @ [dquote] @ ''></a>''"

definition caption_block :: "string \<Rightarrow> string" where
  "caption_block caption = ''<h2>'' @ caption @ ''</h2>''"

definition img_html :: "string \<Rightarrow> string \<Rightarrow> nat \<Rightarrow> outcome \<Rightarrow> string option \<Rightarrow> string option \<times> int" where
  "img_html thumb med order oc file =
     (let w_or_a = (if order = 1 then ''w'' else ''a'') in
      case fopen file w_or_a oc of
        None \<Rightarrow> (file, - 1)
      | Some content \<Rightarrow> (Some (content @ link_block med thumb), 0))"

definition cap_html :: "string \<Rightarrow> outcome \<Rightarrow> string option \<Rightarrow> string option \<times> int" where
  "cap_html caption oc file =
     (case fopen file ''a'' oc of
        None \<Rightarrow> (file, - 1)
      | Some content \<Rightarrow> (Some (content @ caption_block caption), 0))"

section \<open>The batch as a system of processes (album.c, lines 413-690)\<close>

text \<open>
  \<^verbatim>\<open>process\<close> forks one worker per item; each worker runs \<^verbatim>\<open>process_img\<close> and forks a
  child of its own that runs \<^verbatim>\<open>img_html\<close>. The processes share the two pipes
  \<^verbatim>\<open>ptp1\<close> and \<^verbatim>\<open>ptp2\<close> and the file \<^verbatim>\<open>index.html\<close>, and they run in any interleaving.
  A worker is named by \<^verbatim>\<open>index\<close>, its position in the batch counted from 1.

  What the environment decides is an argument of each step: whether a \<^verbatim>\<open>pipe\<close>, \<^verbatim>\<open>read\<close>,
  \<^verbatim>\<open>write\<close> or \<^verbatim>\<open>fopen\<close> fails, what the user answers, and what \<^verbatim>\<open>waitpid\<close> says of a slot
  of \<^verbatim>\<open>pid\<close> that was never written. A \<^verbatim>\<open>read\<close> from an empty pipe blocks. \<^verbatim>\<open>fork\<close> is taken
  to succeed, a write to a pipe never to block, the \<^verbatim>\<open>magick\<close> children a worker waits
  for to end, and one \<^verbatim>\<open>fopen\<close>, \<^verbatim>\<open>fprintf\<close>, \<^verbatim>\<open>fclose\<close> of the report to happen in one step.
\<close>

text \<open>The control points of a worker in \<^verbatim>\<open>process_img\<close>: each is the call it makes next.\<close>

datatype pc =
    NotSpawned
  | Deriving
  | Polling
  | Resending nat
  | ForkHtml
  | WaitThumb
  | GateWait
  | Displaying
  | WaitDisplay
  | Asking
  | Captioning
  | CapHtml string
  | SendTurn
  | SendGate
  | Exited int

text \<open>The control points of \<^verbatim>\<open>process\<close>: creating the pipes, polling \<^verbatim>\<open>concurrent\<close>,
  forking the next worker, waiting for the workers, returned.\<close>

datatype spc = SPipes | SPoll | SFork | SReap | SReturned int

text \<open>The child a worker forks for \<^verbatim>\<open>img_html\<close>: not forked, forked and still to run,
  exited.\<close>

datatype hpc = HNone | HPending | HExited int

text \<open>A slot of the array \<^verbatim>\<open>pid\<close>: never written, or the pid of a worker.\<close>

datatype slot = Uninit | Pid nat

text \<open>What the processes do, in the order they do it.\<close>

datatype action =
    Spawn nat
  | Call nat call
  | TurnRecv nat nat
  | Resent nat nat
  | HandOff nat nat
  | LinkFork nat
  | LinkWrite nat
  | CapWrite nat
  | GateRecv nat nat
  | GateErr nat
  | GateSent nat nat
  | Exit nat int

record state =
  items :: "string list"
  spc :: spc
  loop_i :: nat
  pid :: "slot list"
  pcs :: "nat \<Rightarrow> pc"
  html :: "nat \<Rightarrow> hpc"
  ptp1 :: "nat list"
  ptp2 :: "nat list"
  index_html :: "string option"
  trace :: "action list"
  stderr :: "string list"

definition max_conversions :: nat where
  "max_conversions = 3"

definition alive :: "pc \<Rightarrow> bool" where
  "alive p = (case p of NotSpawned \<Rightarrow> False | Exited r \<Rightarrow> False | _ \<Rightarrow> True)"

text \<open>
  \<^verbatim>\<open>concurrent\<close>: the slots for which \<^verbatim>\<open>waitpid(pid[i], &status, WNOHANG)\<close> is 0. For
  the pid of a worker that is so while the worker runs. The array is not
  initialised, so for a slot not yet written the answer is the environment's
  (\<open>orc\<close>, one answer per slot of the array).
\<close>

fun concurrent :: "(nat \<Rightarrow> pc) \<Rightarrow> bool list \<Rightarrow> slot list \<Rightarrow> nat" where
  "concurrent f orc [] = 0"
| "concurrent f orc (Pid k # ps) = (if alive (f k) then 1 else 0) + concurrent f (tl orc) ps"
| "concurrent f orc (Uninit # ps) =
     (if orc \<noteq> [] \<and> hd orc then 1 else 0) + concurrent f (tl orc) ps"

text \<open>One step of \<^verbatim>\<open>process\<close> (lines 615-675).\<close>

definition process_step :: "outcome \<Rightarrow> state \<Rightarrow> state option" where
  "process_step oc s =
     (case spc s of
        SPipes \<Rightarrow>
          if oc = Err
          then Some (s\<lparr>spc := SReturned (- 1), stderr := stderr s @ [''failed to create a pipe'' @ [newline]]\<rparr>)
          else Some (s\<lparr>spc := (if 0 < length (items s) then SPoll else SReturned 0), loop_i := 0\<rparr>)
      | SPoll \<Rightarrow>
          if concurrent (pcs s) (junk_of oc) (pid s) \<ge> max_conversions
          then Some s
          else Some (s\<lparr>spc := SFork\<rparr>)
      | SFork \<Rightarrow>
          Some (s\<lparr>pid := (pid s)[loop_i s := Pid (Suc (loop_i s))],
                 pcs := (pcs s)(Suc (loop_i s) := Deriving),
                 trace := trace s @ [Spawn (Suc (loop_i s))],
                 loop_i := (if Suc (loop_i s) < length (items s) then Suc (loop_i s) else 0),
                 spc := (if Suc (loop_i s) < length (items s) then SPoll else SReap)\<rparr>)
      | SReap \<Rightarrow>
          (case pcs s (Suc (loop_i s)) of
             Exited r \<Rightarrow>
               Some (s\<lparr>loop_i := Suc (loop_i s),
                      spc := (if Suc (loop_i s) < length (items s) then SReap else SReturned 0)\<rparr>)
           | _ \<Rightarrow> None)
      | SReturned r \<Rightarrow> None)"

text \<open>\<^verbatim>\<open>exit(-1)\<close> in worker \<open>k\<close>.\<close>

definition die :: "nat \<Rightarrow> state \<Rightarrow> state" where
  "die k s = s\<lparr>pcs := (pcs s)(k := Exited (- 1)), trace := trace s @ [Exit k (- 1)]\<rparr>"

definition goto :: "nat \<Rightarrow> pc \<Rightarrow> action list \<Rightarrow> state \<Rightarrow> state" where
  "goto k p as s = s\<lparr>pcs := (pcs s)(k := p), trace := trace s @ as\<rparr>"

text \<open>
  One step of worker \<open>k\<close> in \<^verbatim>\<open>process_img\<close> (lines 413-587) and the end of the child
  branch of \<^verbatim>\<open>process\<close> (lines 660-663). A read from an empty pipe blocks: the step is
  \<open>None\<close>.
\<close>

definition process_img_step :: "nat \<Rightarrow> outcome \<Rightarrow> state \<Rightarrow> state option" where
  "process_img_step k oc s =
     (let path = items s ! (k - 1); thumb = thumb_name path; med = med_name path in
      case pcs s k of
        NotSpawned \<Rightarrow> None
      | Deriving \<Rightarrow>
          Some (goto k (if k \<noteq> 1 then Polling else ForkHtml)
                  [Call k (Resize path thumb ''10%''), Call k (Resize path med ''25%'')] s)
      | Polling \<Rightarrow>
          if oc = Err then Some (die k s)
          else (case ptp2 s of
                  [] \<Rightarrow> None
                | receive # rest \<Rightarrow>
                    Some (goto k (if k \<noteq> receive then Resending receive else ForkHtml)
                            [TurnRecv k receive] (s\<lparr>ptp2 := rest\<rparr>)))
      | Resending receive \<Rightarrow>
          if oc = Err then Some (die k s)
          else Some (goto k Polling [Resent k receive] (s\<lparr>ptp2 := ptp2 s @ [receive]\<rparr>))
      | ForkHtml \<Rightarrow>
          Some (goto k WaitThumb [LinkFork k] (s\<lparr>html := (html s)(k := HPending)\<rparr>))
      | WaitThumb \<Rightarrow>
          Some (goto k (if k \<noteq> 1 then GateWait else Displaying) [] s)
      | GateWait \<Rightarrow>
          if oc = Err then Some (goto k Displaying [GateErr k] s)
          else (case ptp1 s of
                  [] \<Rightarrow> None
                | receive # rest \<Rightarrow>
                    Some (goto k Displaying [GateRecv k receive] (s\<lparr>ptp1 := rest\<rparr>)))
      | Displaying \<Rightarrow>
          Some (goto k WaitDisplay [Call k (Display thumb)] s)
      | WaitDisplay \<Rightarrow>
          Some (goto k Asking [] s)
      | Asking \<Rightarrow>
          Some (goto k Captioning (map (Call k) (rotate_calls thumb med (ask_user oc))) s)
      | Captioning \<Rightarrow>
          Some (goto k (CapHtml (cstr (text_of oc))) [] s)
      | CapHtml caption \<Rightarrow>
          (case cap_html caption oc (index_html s) of
             (file, rc) \<Rightarrow>
               if rc \<noteq> 0 then Some (die k s)
               else Some (goto k SendTurn [CapWrite k] (s\<lparr>index_html := file\<rparr>)))
      | SendTurn \<Rightarrow>
          if oc = Err then Some (die k s)
          else Some (goto k SendGate [HandOff k (k + 1)] (s\<lparr>ptp2 := ptp2 s @ [k + 1]\<rparr>))
      | SendGate \<Rightarrow>
          if oc = Err then Some (die k s)
          else Some (goto k (Exited 0) [GateSent k (k + 1), Exit k 0] (s\<lparr>ptp1 := ptp1 s @ [k + 1]\<rparr>))
      | Exited r \<Rightarrow> None)"

text \<open>The child forked at lines 482-483: \<^verbatim>\<open>exit(img_html(thumb_name, med_name, index))\<close>.\<close>

definition html_step :: "nat \<Rightarrow> outcome \<Rightarrow> state \<Rightarrow> state option" where
  "html_step k oc s =
     (let path = items s ! (k - 1) in
      case html s k of
        HPending \<Rightarrow>
          (case img_html (thumb_name path) (med_name path) k oc (index_html s) of
             (file, rc) \<Rightarrow>
               Some (s\<lparr>html := (html s)(k := HExited rc), index_html := file,
                      trace := trace s @ (if rc = 0 then [LinkWrite k] else [])\<rparr>))
      | _ \<Rightarrow> None)"

text \<open>A step of the system: the scheduler, a worker or an \<^verbatim>\<open>img_html\<close> child moves.\<close>

datatype event = Sched outcome | Work nat outcome | Html nat outcome

fun step :: "event \<Rightarrow> state \<Rightarrow> state option" where
  "step (Sched oc) s = process_step oc s"
| "step (Work k oc) s = process_img_step k oc s"
| "step (Html k oc) s = html_step k oc s"

fun run :: "event list \<Rightarrow> state \<Rightarrow> state option" where
  "run [] s = Some s"
| "run (e # es) s = (case step e s of None \<Rightarrow> None | Some s' \<Rightarrow> run es s')"

text \<open>The state in which \<^verbatim>\<open>process\<close> is entered: \<open>its\<close> is \<^verbatim>\<open>argv[1..]\<close>, \<open>file\<close> the
  \<^verbatim>\<open>index.html\<close> an earlier run left.\<close>

definition process_entry :: "string list \<Rightarrow> string option \<Rightarrow> state" where
  "process_entry its file =
     \<lparr>items = its, spc = SPipes, loop_i = 0, pid = replicate (length its) Uninit,
      pcs = (\<lambda>k. NotSpawned), html = (\<lambda>k. HNone), ptp1 = [], ptp2 = [],
      index_html = file, trace = [], stderr = []\<rparr>"

text \<open>\<^verbatim>\<open>main\<close> (lines 685-690): when \<^verbatim>\<open>validate\<close> fails, \<^verbatim>\<open>process\<close> is never entered and
  \<^verbatim>\<open>main\<close> returns -1.\<close>

definition main :: 
  "(string \<Rightarrow> byte list option) \<Rightarrow> (string \<Rightarrow> byte list) \<Rightarrow> string option \<Rightarrow> string list \<Rightarrow> state" where
  "main fs junk file argv =
     (case validate fs junk argv of
        (msgs, rc) \<Rightarrow>
          if rc \<noteq> 0
          then (process_entry (tl argv) file)\<lparr>spc := SReturned (- 1), stderr := msgs\<rparr>
          else process_entry (tl argv) file)"

text \<open>The status a parent reads with \<^verbatim>\<open>WEXITSTATUS\<close>: the low 8 bits.\<close>

definition exit_status :: "int \<Rightarrow> int" where
  "exit_status r = r mod 256"

section \<open>Invariants of the system\<close>

definition is_handoff :: "action \<Rightarrow> bool" where
  "is_handoff a = (case a of HandOff k v \<Rightarrow> True | _ \<Rightarrow> False)"

definition turn :: "state \<Rightarrow> nat" where
  "turn s = Suc (length (filter is_handoff (trace s)))"

definition polling :: "pc \<Rightarrow> bool" where
  "polling p = (case p of Polling \<Rightarrow> True | Resending v \<Rightarrow> True | _ \<Rightarrow> False)"

definition waiting :: "pc \<Rightarrow> bool" where
  "waiting p = (case p of NotSpawned \<Rightarrow> True | Deriving \<Rightarrow> True | Polling \<Rightarrow> True
                | Resending v \<Rightarrow> True | Exited r \<Rightarrow> True | _ \<Rightarrow> False)"

definition released :: "pc \<Rightarrow> bool" where
  "released p = (case p of SendGate \<Rightarrow> True | Exited r \<Rightarrow> True | _ \<Rightarrow> False)"

definition holding :: "pc \<Rightarrow> bool" where
  "holding p = (\<not> waiting p \<and> \<not> released p)"

definition holder :: "state \<Rightarrow> bool" where
  "holder s \<longleftrightarrow> holding (pcs s (turn s)) \<or>
     (turn s = 1 \<and> (pcs s 1 = NotSpawned \<or> pcs s 1 = Deriving))"

definition turn_inv :: "state \<Rightarrow> bool" where
  "turn_inv s \<longleftrightarrow>
     (\<forall>k. 0 < k \<and> k < turn s \<longrightarrow> released (pcs s k)) \<and>
     (\<forall>k. turn s < k \<longrightarrow> waiting (pcs s k)) \<and>
     \<not> polling (pcs s 1) \<and> pcs s 1 \<noteq> GateWait \<and>
     pcs s (turn s) \<noteq> SendGate \<and>
     (\<forall>v\<in>set (ptp2 s). v = turn s) \<and> length (ptp2 s) \<le> 1 \<and>
     (\<forall>k v. pcs s k = Resending v \<longrightarrow>
        v = turn s \<and> ptp2 s = [] \<and> (\<forall>j w. pcs s j = Resending w \<longrightarrow> j = k)) \<and>
     (holder s \<longrightarrow> ptp2 s = [] \<and> (\<forall>k v. pcs s k \<noteq> Resending v))"

definition is_rotate :: "call \<Rightarrow> bool" where
  "is_rotate c = (case c of Rotate a b d \<Rightarrow> True | _ \<Rightarrow> False)"

definition die_point :: "pc \<Rightarrow> bool" where
  "die_point p = (case p of Polling \<Rightarrow> True | Resending v \<Rightarrow> True | CapHtml c \<Rightarrow> True
      | SendTurn \<Rightarrow> True | SendGate \<Rightarrow> True | _ \<Rightarrow> False)"

definition is_spawn :: "action \<Rightarrow> bool" where
  "is_spawn a = (case a of Spawn k \<Rightarrow> True | _ \<Rightarrow> False)"

definition nspawned :: "state \<Rightarrow> nat" where
  "nspawned s = length (filter is_spawn (trace s))"

definition nalive :: "state \<Rightarrow> nat" where
  "nalive s = card {k. alive (pcs s k)}"

definition sched_inv :: "state \<Rightarrow> bool" where
  "sched_inv s \<longleftrightarrow>
     nspawned s \<le> length (items s) \<and>
     filter is_spawn (trace s) = map Spawn [1..<Suc (nspawned s)] \<and>
     (\<forall>k. pcs s k \<noteq> NotSpawned \<longleftrightarrow> 0 < k \<and> k \<le> nspawned s) \<and>
     pid s = map Pid [1..<Suc (nspawned s)] @ replicate (length (items s) - nspawned s) Uninit \<and>
     (spc s = SPoll \<or> spc s = SFork \<longrightarrow> loop_i s = nspawned s \<and> nspawned s < length (items s)) \<and>
     (spc s = SPipes \<longrightarrow> nspawned s = 0) \<and>
     nalive s \<le> max_conversions \<and>
     (spc s = SFork \<longrightarrow> nalive s < max_conversions)"

definition inv1 :: "state \<Rightarrow> bool" where
  "inv1 s \<longleftrightarrow> sched_inv s \<and> turn_inv s"

definition is_exited :: "pc \<Rightarrow> bool" where
  "is_exited p = (case p of Exited r \<Rightarrow> True | _ \<Rightarrow> False)"

definition past_gate :: "pc \<Rightarrow> bool" where
  "past_gate p = (case p of Displaying \<Rightarrow> True | WaitDisplay \<Rightarrow> True | Asking \<Rightarrow> True
     | Captioning \<Rightarrow> True | CapHtml c \<Rightarrow> True | SendTurn \<Rightarrow> True | SendGate \<Rightarrow> True | _ \<Rightarrow> False)"

definition is_gate :: "action \<Rightarrow> bool" where
  "is_gate a = (case a of GateSent k v \<Rightarrow> True | GateRecv k v \<Rightarrow> True | HandOff k v \<Rightarrow> True | _ \<Rightarrow> False)"

definition gate_inv :: "state \<Rightarrow> bool" where
  "gate_inv s \<longleftrightarrow>
     (\<forall>k. 0 < k \<and> Suc k < turn s \<longrightarrow> is_exited (pcs s k)) \<and>
     ptp1 s = (if GateSent (turn s - 1) (turn s) \<in> set (trace s) \<and>
                  GateRecv (turn s) (turn s) \<notin> set (trace s) then [turn s] else []) \<and>
     (\<forall>j v. GateSent j v \<in> set (trace s) \<longrightarrow> v = Suc j \<and> j < turn s \<and> is_exited (pcs s j)) \<and>
     (\<forall>k v. GateRecv k v \<in> set (trace s) \<longrightarrow>
        v = k \<and> k \<le> turn s \<and> GateSent (k - 1) k \<in> set (trace s)) \<and>
     (\<forall>k. 1 < k \<and> past_gate (pcs s k) \<longrightarrow> GateRecv k k \<in> set (trace s))"

definition no_gate_err :: "action list \<Rightarrow> bool" where
  "no_gate_err tr \<longleftrightarrow> (\<forall>k. GateErr k \<notin> set tr)"

definition inv2 :: "state \<Rightarrow> bool" where
  "inv2 s \<longleftrightarrow> sched_inv s \<and> turn_inv s \<and> (no_gate_err (trace s) \<longrightarrow> gate_inv s)"

definition past_fork :: "pc \<Rightarrow> bool" where
  "past_fork p = (case p of WaitThumb \<Rightarrow> True | GateWait \<Rightarrow> True | Displaying \<Rightarrow> True
     | WaitDisplay \<Rightarrow> True | Asking \<Rightarrow> True | Captioning \<Rightarrow> True | CapHtml c \<Rightarrow> True
     | SendTurn \<Rightarrow> True | SendGate \<Rightarrow> True | _ \<Rightarrow> False)"

definition order_inv :: "state \<Rightarrow> bool" where
  "order_inv s \<longleftrightarrow>
     (\<forall>k. past_fork (pcs s k) \<longrightarrow> LinkFork k \<in> set (trace s)) \<and>
     (\<forall>k. pcs s k = SendTurn \<or> pcs s k = SendGate \<longrightarrow> CapWrite k \<in> set (trace s)) \<and>
     (\<forall>k. pcs s k = SendGate \<longrightarrow> HandOff k (k + 1) \<in> set (trace s))"

definition news_ok :: "state \<Rightarrow> action list \<Rightarrow> bool" where
  "news_ok s as \<longleftrightarrow>
     (\<forall>k v. HandOff k v \<in> set as \<longrightarrow>
        v = k + 1 \<and> CapWrite k \<in> set (trace s) \<and> LinkFork k \<in> set (trace s)) \<and>
     (\<forall>k v. GateSent k v \<in> set as \<longrightarrow>
        CapWrite k \<in> set (trace s) \<and> LinkFork k \<in> set (trace s) \<and> HandOff k (k + 1) \<in> set (trace s)) \<and>
     (\<forall>k th. 1 < k \<and> Call k (Display th) \<in> set as \<and> no_gate_err (trace s) \<longrightarrow>
        GateSent (k - 1) k \<in> set (trace s) \<and> GateRecv k k \<in> set (trace s)) \<and>
     (\<forall>k v. TurnRecv k v \<in> set as \<longrightarrow> k \<noteq> 1 \<and> v \<le> length (items s)) \<and>
     (\<forall>v. GateRecv 1 v \<notin> set as) \<and> GateErr 1 \<notin> set as"

definition trace_inv :: "state \<Rightarrow> bool" where
  "trace_inv s \<longleftrightarrow>
     (\<forall>k v xs ys. trace s = xs @ HandOff k v # ys \<longrightarrow>
        v = k + 1 \<and> CapWrite k \<in> set xs \<and> LinkFork k \<in> set xs) \<and>
     (\<forall>k v xs ys. trace s = xs @ GateSent k v # ys \<longrightarrow>
        CapWrite k \<in> set xs \<and> LinkFork k \<in> set xs \<and> HandOff k (k + 1) \<in> set xs) \<and>
     (\<forall>k th xs ys. 1 < k \<and> trace s = xs @ Call k (Display th) # ys \<and> no_gate_err xs \<longrightarrow>
        GateSent (k - 1) k \<in> set xs \<and> GateRecv k k \<in> set xs) \<and>
     (\<forall>k v. TurnRecv k v \<in> set (trace s) \<longrightarrow> k \<noteq> 1 \<and> v \<le> length (items s)) \<and>
     (\<forall>v. GateRecv 1 v \<notin> set (trace s)) \<and> GateErr 1 \<notin> set (trace s)"

definition inv3 :: "state \<Rightarrow> bool" where
  "inv3 s \<longleftrightarrow> inv2 s \<and> order_inv s \<and> trace_inv s"

section \<open>Concrete runs\<close>

text \<open>Schedules used to run the system on concrete batches; \<open>report_writes\<close> keeps the
  writes to \<^verbatim>\<open>index.html\<close> of a trace.\<close>

definition four_items_polling :: "event list" where
  "four_items_polling =
     [Sched Ok, Sched (Junk []), Sched Ok, Sched (Junk []), Sched Ok, Sched (Junk []), Sched Ok]"

definition one_item_late_link :: "event list" where
  "one_item_late_link =
     [Sched Ok, Sched (Junk []), Sched Ok,
      Work 1 Ok, Work 1 Ok, Work 1 Ok, Work 1 Ok, Work 1 Ok, Work 1 (Reply ''3''),
      Work 1 (Reply ''Sunset''), Work 1 Ok, Html 1 Ok, Work 1 Ok, Work 1 Ok, Sched Ok]"

definition second_at_gate :: "event list" where
  "second_at_gate =
     [Sched Ok, Sched (Junk []), Sched Ok, Sched (Junk []), Sched Ok,
      Work 2 Ok,
      Work 1 Ok, Work 1 Ok, Html 1 Ok, Work 1 Ok, Work 1 Ok, Work 1 Ok, Work 1 (Reply ''1''),
      Work 1 (Reply ''Sunset''), Work 1 Ok, Work 1 Ok,
      Work 2 Ok, Work 2 Ok, Html 2 Ok, Work 2 Ok]"

definition two_items_late_link :: "event list" where
  "two_items_late_link =
     [Sched Ok, Sched (Junk []), Sched Ok, Sched (Junk []), Sched Ok,
      Work 2 Ok,
      Work 1 Ok, Work 1 Ok, Work 1 Ok, Work 1 Ok, Work 1 Ok, Work 1 (Reply ''1''),
      Work 1 (Reply ''Sunset''), Work 1 Ok, Work 1 Ok, Work 1 Ok,
      Work 2 Ok, Work 2 Ok, Html 2 Ok, Html 1 Ok]"

definition one_item_in_order :: "event list" where
  "one_item_in_order =
     [Sched Ok, Sched (Junk []), Sched Ok,
      Work 1 Ok, Work 1 Ok, Html 1 Ok, Work 1 Ok, Work 1 Ok, Work 1 Ok, Work 1 (Reply ''3''),
      Work 1 (Reply ''Sunset''), Work 1 Ok, Work 1 Ok, Work 1 Ok, Sched Ok]"

text \<open>The run of two items up to the hand-off of worker 1, whose \<^verbatim>\<open>img_html\<close> child has
  not run yet; no call fails in it.\<close>

definition hand_off_before_link :: "event list" where
  "hand_off_before_link =
     [Sched Ok, Sched (Junk []), Sched Ok, Sched (Junk []), Sched Ok,
      Work 2 Ok,
      Work 1 Ok, Work 1 Ok, Work 1 Ok, Work 1 Ok, Work 1 Ok, Work 1 (Reply ''1''),
      Work 1 (Reply ''Sunset''), Work 1 Ok, Work 1 Ok]"

text \<open>Files for \<^verbatim>\<open>./album a.jpg empty\<close>: a JPEG file and a file of no bytes. In
  \<open>stale_header\<close> the array \<^verbatim>\<open>bytes\<close> holds at each call the header of the JPEG file, as it
  does when the call for \<^verbatim>\<open>a.jpg\<close> has used the same stack frame before; in \<open>zero_buffer\<close>
  it holds zeros.\<close>

definition jpeg_file :: "byte list" where
  "jpeg_file = [0xff, 0xd8, 0xff, 0xe0, 0x00, 0x10, 0x4a, 0x46, 0x49, 0x46]"

definition short_files :: "string \<Rightarrow> byte list option" where
  "short_files p = (if p = ''a.jpg'' then Some jpeg_file else if p = ''empty'' then Some [] else None)"

definition stale_header :: "string \<Rightarrow> byte list" where
  "stale_header p = take 8 jpeg_file"

definition zero_buffer :: "string \<Rightarrow> byte list" where
  "zero_buffer p = replicate 8 0"

definition report_writes :: "action list \<Rightarrow> action list" where
  "report_writes tr = filter (\<lambda>a. case a of LinkWrite k \<Rightarrow> True | CapWrite k \<Rightarrow> True | _ \<Rightarrow> False) tr"

section \<open>Theorems\<close>

lemma header_is_img_unfold:
  "header_is_img [b0, b1, b2, b3, b4, b5, b6, b7] \<longleftrightarrow>
     (b0 = 0xff \<and> b1 = 0xd8) \<or>
     (b0 = 0x89 \<and> b1 = 0x50 \<and> b2 = 0x4e \<and> b3 = 0x47 \<and> b4 = 0x0d \<and> b5 = 0x0a \<and> b6 = 0x1a \<and> b7 = 0x0a) \<or>
     (b0 = 0x42 \<and> b1 = 0x4d) \<or>
     (b0 = 0x47 \<and> b1 = 0x49 \<and> b2 = 0x46)"
  by (simp add: header_is_img_def jpg_def png_def bmp_def gif_def)

subsection \<open>Validation\<close>

lemma length_eight: "length (bytes::'a list) = 8 \<Longrightarrow> \<exists>b0 b1 b2 b3 b4 b5 b6 b7. bytes = [b0, b1, b2, b3, b4, b5, b6, b7]"
  by (auto simp: length_Suc_conv eval_nat_numeral)

lemma header_is_img_prefix: "length bytes = 8 \<Longrightarrow> header_is_img bytes \<longleftrightarrow> prefix jpg bytes \<or> prefix png bytes \<or> prefix bmp bytes \<or> prefix gif bytes"
proof -
  assume "length bytes = 8"
  then obtain b0 b1 b2 b3 b4 b5 b6 b7 where b: "bytes = [b0, b1, b2, b3, b4, b5, b6, b7]"
    using length_eight by blast
  show ?thesis unfolding b header_is_img_unfold
    by (simp add: jpg_def png_def bmp_def gif_def)
qed

lemma fread8_full: "8 \<le> length c \<Longrightarrow> fread8 junk c = take 8 c"
  by (simp add: fread8_def)

lemma invalid_img_long: "(\<forall>c. f = Some c \<longrightarrow> 8 \<le> length c) \<Longrightarrow> (invalid_img junk f = 0 \<longleftrightarrow> (\<exists>c. f = Some c \<and> header_is_img (take 8 c)))"
  by (cases f) (auto simp: invalid_img_def fread8_full)

lemma nth_fread8: "i < length c \<Longrightarrow> i < 8 \<Longrightarrow> fread8 junk c ! i = c ! i"
  by (simp add: fread8_def nth_append)

lemma invalid_img_signed:
  assumes "prefix jpg c \<or> prefix png c \<or> prefix bmp c \<or> prefix gif c"
  shows "invalid_img junk (Some c) = 0"
proof -
  from assms consider (j) r where "c = jpg @ r" | (p) r where "c = png @ r"
    | (b) r where "c = bmp @ r" | (g) r where "c = gif @ r"
    by (auto simp: prefix_def)
  then have "header_is_img (fread8 junk c)"
  proof cases
    case j
    then have "fread8 junk c ! 0 = 0xff" "fread8 junk c ! 1 = 0xd8"
      by (simp_all add: nth_fread8 jpg_def)
    then show ?thesis by (simp add: header_is_img_def jpg_def)
  next
    case p
    then have "fread8 junk c = png" by (simp add: fread8_def png_def)
    then show ?thesis by (simp add: header_is_img_def)
  next
    case b
    then have "fread8 junk c ! 0 = 0x42" "fread8 junk c ! 1 = 0x4d"
      by (simp_all add: nth_fread8 bmp_def)
    then show ?thesis by (simp add: header_is_img_def bmp_def)
  next
    case g
    then have "fread8 junk c ! 0 = 0x47" "fread8 junk c ! 1 = 0x49" "fread8 junk c ! 2 = 0x46"
      by (simp_all add: nth_fread8 gif_def)
    then show ?thesis by (simp add: header_is_img_def gif_def)
  qed
  then show ?thesis by (simp add: invalid_img_def)
qed

text \<open>
  \<^verbatim>\<open>header_is_img\<close> holds of 8 bytes exactly when they begin with the JPEG
  signature FF D8, the 8 byte PNG signature, the BMP signature 42 4D or the GIF
  signature 47 49 46; a file of at least 8 bytes passes \<^verbatim>\<open>invalid_img\<close> exactly when it
  can be opened and its first 8 bytes satisfy the predicate; a file that cannot be
  opened fails, and every file that begins with one of the signatures passes.
\<close>

lemma header_is_img_signatures:
  "(length bytes = 8 \<longrightarrow>
      (header_is_img bytes \<longleftrightarrow> prefix jpg bytes \<or> prefix png bytes \<or> prefix bmp bytes \<or> prefix gif bytes)) \<and>
   ((\<forall>c. f = Some c \<longrightarrow> 8 \<le> length c) \<longrightarrow>
      (invalid_img junk f = 0 \<longleftrightarrow> (\<exists>c. f = Some c \<and> header_is_img (take 8 c)))) \<and>
   invalid_img junk None = - 1 \<and>
   ((\<exists>c. f = Some c \<and> (prefix jpg c \<or> prefix png c \<or> prefix bmp c \<or> prefix gif c)) \<longrightarrow>
      invalid_img junk f = 0)"
  using header_is_img_prefix [of bytes] invalid_img_long [of f junk] invalid_img_signed [of _ junk]
  by (auto simp: invalid_img_def)

lemma header_is_img_signatures_example:
  "header_is_img [0x47, 0x49, 0x46, 0x38, 0x39, 0x61, 0x01, 0x00] \<and>
   invalid_img [] (Some [0x47, 0x49, 0x46, 0x38, 0x39, 0x61, 0x01, 0x00, 0x01, 0x00]) = 0 \<and>
   \<not> header_is_img [0x25, 0x50, 0x44, 0x46, 0x2d, 0x31, 0x2e, 0x34] \<and>
   invalid_img [] (Some [0x25, 0x50, 0x44, 0x46, 0x2d, 0x31, 0x2e, 0x34, 0x0a]) \<noteq> 0 \<and>
   invalid_img [] None \<noteq> 0"
  using header_is_img_signatures [of "[0x47, 0x49, 0x46, 0x38, 0x39, 0x61, 0x01, 0x00]"
      "Some [0x47, 0x49, 0x46, 0x38, 0x39, 0x61, 0x01, 0x00, 0x01, 0x00]" "[]"]
    header_is_img_signatures [of "[0x25, 0x50, 0x44, 0x46, 0x2d, 0x31, 0x2e, 0x34]"
      "Some [0x25, 0x50, 0x44, 0x46, 0x2d, 0x31, 0x2e, 0x34, 0x0a]" "[]"]
    header_is_img_signatures [of "[]" None "[]"]
  by (simp add: jpg_def png_def bmp_def gif_def)

text \<open>
  Claim C7 fails on the code for a file shorter than 8 bytes. \<^verbatim>\<open>invalid_img\<close> does not
  initialise \<^verbatim>\<open>bytes\<close> and does not check what \<^verbatim>\<open>fread\<close> returns, so the bytes the file
  does not have are those the array held before. The same empty file passes over the
  header an earlier call read and fails over zeros; the one byte file FF passes when
  D8 is left behind it; neither file begins with a signature. So \<^verbatim>\<open>./album a.jpg empty\<close>
  is validated and \<^verbatim>\<open>process\<close> is entered with both items.
\<close>

theorem short_file_verdict_from_stale_buffer:
  "invalid_img (stale_header ''empty'') (short_files ''empty'') = 0 \<and>
   invalid_img (zero_buffer ''empty'') (short_files ''empty'') = - 1 \<and>
   short_files ''empty'' = Some [] \<and>
   fread8 [0x00, 0xd8, 0, 0, 0, 0, 0, 0] [0xff] = [0xff, 0xd8, 0, 0, 0, 0, 0, 0] \<and>
   invalid_img [0x00, 0xd8, 0, 0, 0, 0, 0, 0] (Some [0xff]) = 0 \<and>
   invalid_img [0, 0, 0, 0, 0, 0, 0, 0] (Some [0xff]) = - 1 \<and>
   \<not> prefix jpg [] \<and> \<not> prefix png [] \<and> \<not> prefix bmp [] \<and> \<not> prefix gif [] \<and>
   \<not> prefix jpg [0xff] \<and> \<not> prefix png [0xff] \<and> \<not> prefix bmp [0xff] \<and> \<not> prefix gif [0xff] \<and>
   validate short_files stale_header [''./album'', ''a.jpg'', ''empty''] = ([], 0) \<and>
   spc (main short_files stale_header None [''./album'', ''a.jpg'', ''empty'']) = SPipes \<and>
   items (main short_files stale_header None [''./album'', ''a.jpg'', ''empty'']) = [''a.jpg'', ''empty''] \<and>
   validate short_files zero_buffer [''./album'', ''a.jpg'', ''empty''] =
     ([''Error: one (or more) img is not a valid image or path: empty'' @ [newline]], - 1)"
  by (simp add: invalid_img_def fread8_def header_is_img_def jpg_def png_def bmp_def gif_def
      short_files_def stale_header_def zero_buffer_def jpeg_file_def validate_def main_def
      process_entry_def)

lemma validate_loop_invalid:
  "\<exists>a\<in>set as. invalid_img (junk a) (fs a) \<noteq> 0 \<Longrightarrow>
   snd (validate_loop fs junk as) = - 1 \<and>
   (\<exists>a\<in>set as. invalid_img (junk a) (fs a) \<noteq> 0 \<and>
      fst (validate_loop fs junk as) = [''Error: one (or more) img is not a valid image or path: '' @ a @ [newline]])"
  by (induction as) auto

lemma validate_loop_valid:
  "\<forall>a\<in>set as. invalid_img (junk a) (fs a) = 0 \<Longrightarrow> validate_loop fs junk as = ([], 0)"
  by (induction as) auto

lemma step_returned:
  "spc s = SReturned r \<Longrightarrow> \<forall>k. pcs s k = NotSpawned \<Longrightarrow> \<forall>k. html s k = HNone \<Longrightarrow> step e s = None"
  by (cases e) (simp_all add: process_step_def process_img_step_def html_step_def)

lemma run_returned:
  "spc s = SReturned r \<Longrightarrow> \<forall>k. pcs s k = NotSpawned \<Longrightarrow> \<forall>k. html s k = HNone \<Longrightarrow>
   run es s = Some s' \<Longrightarrow> es = [] \<and> s' = s"
  by (cases es) (simp_all add: step_returned)

lemma main_rejected:
  assumes "snd (validate fs junk argv) \<noteq> 0"
  shows "spc (main fs junk f argv) = SReturned (- 1) \<and>
         stderr (main fs junk f argv) = fst (validate fs junk argv) \<and>
         (\<forall>k. pcs (main fs junk f argv) k = NotSpawned) \<and>
         (\<forall>k. html (main fs junk f argv) k = HNone) \<and>
         trace (main fs junk f argv) = []"
  using assms by (cases "validate fs junk argv") (simp add: main_def process_entry_def)

text \<open>
  Claim C6. With no item the program prints the usage message and returns -1 (exit
  status 255); with an item that \<^verbatim>\<open>invalid_img\<close> rejects it prints the error for such an
  item and returns -1. In both cases \<^verbatim>\<open>process\<close> is not entered: no step of the system
  is possible and no worker is ever spawned.
\<close>

theorem main_rejects_before_spawning:
  "(length argv \<le> 1 \<longrightarrow>
      stderr (main fs junk f argv) = [''Usage: ./album [img]+'' @ [newline]]) \<and>
   ((\<exists>a\<in>set (tl argv). invalid_img (junk a) (fs a) \<noteq> 0) \<and> 1 < length argv \<longrightarrow>
      (\<exists>a\<in>set (tl argv). invalid_img (junk a) (fs a) \<noteq> 0 \<and>
         stderr (main fs junk f argv) =
           [''Error: one (or more) img is not a valid image or path: '' @ a @ [newline]])) \<and>
   (length argv \<le> 1 \<or> (\<exists>a\<in>set (tl argv). invalid_img (junk a) (fs a) \<noteq> 0) \<longrightarrow>
      spc (main fs junk f argv) = SReturned (- 1) \<and> exit_status (- 1) \<noteq> 0 \<and>
      (\<forall>es s. run es (main fs junk f argv) = Some s \<longrightarrow>
         es = [] \<and> (\<forall>k. pcs s k = NotSpawned) \<and> (\<forall>a\<in>set (trace s). \<forall>k. a \<noteq> Spawn k)))"
proof (intro conjI impI)
  assume "length argv \<le> 1"
  then show "stderr (main fs junk f argv) = [''Usage: ./album [img]+'' @ [newline]]"
    by (simp add: main_def validate_def process_entry_def)
next
  assume a: "(\<exists>a\<in>set (tl argv). invalid_img (junk a) (fs a) \<noteq> 0) \<and> 1 < length argv"
  then have v: "validate fs junk argv = validate_loop fs junk (tl argv)"
    by (simp add: validate_def)
  from a validate_loop_invalid [of "tl argv" junk fs]
  have l: "snd (validate_loop fs junk (tl argv)) = - 1"
    and "\<exists>a\<in>set (tl argv). invalid_img (junk a) (fs a) \<noteq> 0 \<and>
      fst (validate_loop fs junk (tl argv)) = [''Error: one (or more) img is not a valid image or path: '' @ a @ [newline]]"
    by blast+
  moreover have "stderr (main fs junk f argv) = fst (validate_loop fs junk (tl argv))"
    using main_rejected [of fs junk argv f] v l by simp
  ultimately show "\<exists>a\<in>set (tl argv). invalid_img (junk a) (fs a) \<noteq> 0 \<and>
         stderr (main fs junk f argv) =
           [''Error: one (or more) img is not a valid image or path: '' @ a @ [newline]]"
    by simp
next
  assume a: "length argv \<le> 1 \<or> (\<exists>a\<in>set (tl argv). invalid_img (junk a) (fs a) \<noteq> 0)"
  have r: "snd (validate fs junk argv) \<noteq> 0"
  proof (cases "length argv \<le> 1")
    case True
    then show ?thesis by (simp add: validate_def)
  next
    case False
    with a validate_loop_invalid [of "tl argv" junk fs] show ?thesis
      by (simp add: validate_def)
  qed
  note m = main_rejected [OF r, of f]
  from m show "spc (main fs junk f argv) = SReturned (- 1)" by simp
  show "exit_status (- 1) \<noteq> 0" by (simp add: exit_status_def)
  show "\<forall>es s. run es (main fs junk f argv) = Some s \<longrightarrow>
         es = [] \<and> (\<forall>k. pcs s k = NotSpawned) \<and> (\<forall>a\<in>set (trace s). \<forall>k. a \<noteq> Spawn k)"
  proof (intro allI impI)
    fix es s assume "run es (main fs junk f argv) = Some s"
    with m run_returned [of "main fs junk f argv" "- 1" es s]
    have "es = []" "s = main fs junk f argv" by simp_all
    with m show "es = [] \<and> (\<forall>k. pcs s k = NotSpawned) \<and> (\<forall>a\<in>set (trace s). \<forall>k. a \<noteq> Spawn k)"
      by simp
  qed
qed

theorem main_rejects_before_spawning_witness:
  "stderr (main (\<lambda>p. None) (\<lambda>p. []) None [''./album'']) = [''Usage: ./album [img]+'' @ [newline]] \<and>
   stderr (main (\<lambda>p. if p = ''a.gif'' then Some [0x47, 0x49, 0x46, 0x38, 0x39, 0x61, 0x01, 0x00] else None)
             (\<lambda>p. []) None [''./album'', ''a.gif'', ''notes.txt''])
     = [''Error: one (or more) img is not a valid image or path: notes.txt'' @ [newline]] \<and>
   spc (main (\<lambda>p. if p = ''a.gif'' then Some [0x47, 0x49, 0x46, 0x38, 0x39, 0x61, 0x01, 0x00] else None)
             (\<lambda>p. []) None [''./album'', ''a.gif'', ''notes.txt'']) = SReturned (- 1) \<and>
   run [Sched Ok] (main (\<lambda>p. None) (\<lambda>p. []) None [''./album'']) = None"
  using main_rejects_before_spawning [of "[''./album'']" "\<lambda>p. None" "\<lambda>p. []" None]
    main_rejects_before_spawning [of "[''./album'', ''a.gif'', ''notes.txt'']"
      "\<lambda>p. if p = ''a.gif'' then Some [0x47, 0x49, 0x46, 0x38, 0x39, 0x61, 0x01, 0x00] else None"
      "\<lambda>p. []" None]
  by (simp add: invalid_img_def main_def validate_def header_is_img_def fread8_def
      jpg_def png_def bmp_def gif_def process_entry_def process_step_def)

subsection \<open>Rotation answer and derived files\<close>

lemma cstr_id: "CHR 0x00 \<notin> set l \<Longrightarrow> cstr l = l"
  by (auto simp: cstr_def takeWhile_eq_all_conv)

lemma helper_answer_line:
  assumes "CHR 0x00 \<notin> set l" and "newline \<notin> set l" and "length l + 1 < STRING_LEN"
  shows "helper_answer old (l @ newline # rest) = l"
proof -
  have tw: "takeWhile (\<lambda>c. c \<noteq> newline) (l @ newline # rest) = l"
    using assms(2) by (induction l) auto
  have "fgets old STRING_LEN (l @ newline # rest) = cstr (take (STRING_LEN - 1) (l @ [newline]))"
    by (simp add: fgets_def tw)
  also have "take (STRING_LEN - 1) (l @ [newline]) = l @ [newline]"
    using assms(3) by simp
  also have "cstr (l @ [newline]) = l @ [newline]"
    using assms(1) by (intro cstr_id) (simp add: newline_def)
  finally show ?thesis
    by (simp add: helper_answer_def input_string_def Let_def)
qed

lemma ask_user_reply:
  "ask_user (Reply r) = (if cstr r = ''1'' then 1 else if cstr r = ''2'' then 2 else 0)"
  by (simp add: ask_user_def text_of_def)

text \<open>
  Claim C5. The answer \<open>1\<close> gives rotation 1 (clockwise, \<open>-rotate 90\<close>), the answer \<open>2\<close>
  gives rotation 2 (counter-clockwise, \<open>-rotate -90\<close>), every other answer, the empty
  one too, gives 0; a typed line reaches the parent without its newline; and the
  worker calls \<^verbatim>\<open>rotate\<close> on the thumbnail and on the medium image when the rotation is
  not 0, and makes no call otherwise.
\<close>

theorem rotation_decision:
  "(ask_user (Reply r) = 1 \<longleftrightarrow> cstr r = ''1'') \<and>
   (ask_user (Reply r) = 2 \<longleftrightarrow> cstr r = ''2'') \<and>
   (cstr r \<noteq> ''1'' \<and> cstr r \<noteq> ''2'' \<longrightarrow> ask_user (Reply r) = 0) \<and>
   ask_user (Reply []) = 0 \<and>
   (CHR 0x00 \<notin> set l \<and> newline \<notin> set l \<and> length l + 1 < STRING_LEN \<longrightarrow>
      helper_answer old (l @ newline # rest) = l) \<and>
   (pcs s k = Asking \<longrightarrow>
      process_img_step k (Reply r) s =
        Some (goto k Captioning
               (if ask_user (Reply r) = 0 then []
                else [Call k (Rotate (thumb_name (items s ! (k - 1))) (thumb_name (items s ! (k - 1)))
                               (ask_user (Reply r))),
                      Call k (Rotate (med_name (items s ! (k - 1))) (med_name (items s ! (k - 1)))
                               (ask_user (Reply r)))]) s)) \<and>
   execlp_args (Rotate img rename 1) = [''magick'', ''convert'', ''-rotate'', ''90'', img, rename] \<and>
   execlp_args (Rotate img rename 2) = [''magick'', ''convert'', ''-rotate'', ''-90'', img, rename]"
proof (intro conjI impI)
  assume "pcs s k = Asking"
  then show "process_img_step k (Reply r) s =
        Some (goto k Captioning
               (if ask_user (Reply r) = 0 then []
                else [Call k (Rotate (thumb_name (items s ! (k - 1))) (thumb_name (items s ! (k - 1)))
                               (ask_user (Reply r))),
                      Call k (Rotate (med_name (items s ! (k - 1))) (med_name (items s ! (k - 1)))
                               (ask_user (Reply r)))]) s)"
    by (simp add: process_img_step_def rotate_calls_def ask_user_reply Let_def)
qed (simp_all add: ask_user_reply helper_answer_line cstr_def)

theorem rotation_decision_witness:
  "ask_user (Reply (helper_answer ''??'' (''1'' @ newline # ''My caption''))) = 1 \<and>
   ask_user (Reply (helper_answer ''??'' (''2'' @ newline # ''My caption''))) = 2 \<and>
   ask_user (Reply (helper_answer ''??'' (''3'' @ newline # ''My caption''))) = 0 \<and>
   ask_user (Reply (helper_answer ''??'' (newline # ''My caption''))) = 0 \<and>
   rotate_calls ''thumb_a.jpg'' ''med_a.jpg'' (ask_user (Reply ''2'')) =
     [Rotate ''thumb_a.jpg'' ''thumb_a.jpg'' 2, Rotate ''med_a.jpg'' ''med_a.jpg'' 2] \<and>
   rotate_calls ''thumb_a.jpg'' ''med_a.jpg'' (ask_user (Reply ''12'')) = []"
  using rotation_decision [of "''1''" "''1''" "''??''" "''My caption''"]
    rotation_decision [of "''2''" "''2''" "''??''" "''My caption''"]
    rotation_decision [of "''3''" "''3''" "''??''" "''My caption''"]
    rotation_decision [of "''12''" "[]" "''??''" "''My caption''"]
  by (simp add: STRING_LEN_def newline_def cstr_def rotate_calls_def)

lemma strrchr_None: "strrchr s c = None \<Longrightarrow> c \<notin> set s"
  by (induction s) (auto split: option.splits if_splits)

lemma strrchr_Some:
  "strrchr s c = Some p \<Longrightarrow> p < length s \<and> s ! p = c \<and> c \<notin> set (drop (Suc p) s)"
proof (induction s arbitrary: p)
  case Nil
  then show ?case by simp
next
  case (Cons x xs)
  then show ?case
    by (auto split: option.splits if_splits dest: strrchr_None)
qed

lemma img_of_split:
  "CHR ''/'' \<notin> set (img_of p) \<and> (\<exists>dir. p = dir @ img_of p \<and> (dir = [] \<or> last dir = CHR ''/''))"
proof (cases "strrchr p (CHR ''/'')")
  case None
  then show ?thesis by (auto simp: img_of_def dest: strrchr_None)
next
  case (Some q)
  from strrchr_Some [OF Some] have q: "q < length p" "p ! q = CHR ''/''" "CHR ''/'' \<notin> set (drop (Suc q) p)"
    by simp_all
  have "p = take (Suc q) p @ drop (Suc q) p" by simp
  moreover have "last (take (Suc q) p) = CHR ''/''"
    using q(1,2) by (simp add: take_Suc_conv_app_nth)
  ultimately have "\<exists>dir. p = dir @ drop (Suc q) p \<and> (dir = [] \<or> last dir = CHR ''/'')"
    by blast
  then show ?thesis using Some q(3) by (simp add: img_of_def)
qed

text \<open>
  Claim C10. A forked worker starts at the two \<^verbatim>\<open>resize\<close> calls, and that step is
  possible in every state and whatever the environment answers: it asks for the item
  at 10% under the name \<open>thumb_\<close> followed by the item's base name and for the item at
  25% under \<open>med_\<close> followed by the base name. The base name is what follows the last
  slash of the path, so both names are relative to the current directory.
\<close>

theorem derived_artifacts_requested_first:
  "(spc s = SFork \<longrightarrow>
      (\<exists>s'. process_step oc s = Some s' \<and> pcs s' (Suc (loop_i s)) = Deriving)) \<and>
   (pcs s k = Deriving \<longrightarrow>
      process_img_step k oc s =
        Some (goto k (if k \<noteq> 1 then Polling else ForkHtml)
               [Call k (Resize (items s ! (k - 1)) (''thumb_'' @ img_of (items s ! (k - 1))) ''10%''),
                Call k (Resize (items s ! (k - 1)) (''med_'' @ img_of (items s ! (k - 1))) ''25%'')] s)) \<and>
   CHR ''/'' \<notin> set (img_of p) \<and>
   (\<exists>dir. p = dir @ img_of p \<and> (dir = [] \<or> last dir = CHR ''/'')) \<and>
   CHR ''/'' \<notin> set (''thumb_'' @ img_of p) \<and> CHR ''/'' \<notin> set (''med_'' @ img_of p) \<and>
   execlp_args (Resize p (''thumb_'' @ img_of p) ''10%'') =
     [''magick'', ''convert'', ''-resize'', ''10%'', p, ''thumb_'' @ img_of p] \<and>
   execlp_args (Resize p (''med_'' @ img_of p) ''25%'') =
     [''magick'', ''convert'', ''-resize'', ''25%'', p, ''med_'' @ img_of p]"
  using img_of_split [of p]
  by (simp add: process_step_def process_img_step_def thumb_name_def med_name_def Let_def)

theorem derived_artifacts_requested_first_witness:
  "img_of ''photos/trip/a.jpg'' = ''a.jpg'' \<and> img_of ''b.png'' = ''b.png'' \<and>
   process_img_step 2 Ok ((process_entry [''photos/trip/a.jpg'', ''b.png''] None)\<lparr>pcs := (\<lambda>k. NotSpawned)(2 := Deriving)\<rparr>)
     = Some (goto 2 Polling [Call 2 (Resize ''b.png'' ''thumb_b.png'' ''10%''), Call 2 (Resize ''b.png'' ''med_b.png'' ''25%'')]
          ((process_entry [''photos/trip/a.jpg'', ''b.png''] None)\<lparr>pcs := (\<lambda>k. NotSpawned)(2 := Deriving)\<rparr>))"
  using derived_artifacts_requested_first
    [of "(process_entry [''photos/trip/a.jpg'', ''b.png''] None)\<lparr>pcs := (\<lambda>k. NotSpawned)(2 := Deriving)\<rparr>" Ok 2 "''b.png''"]
  by (simp add: img_of_def process_entry_def)

subsection \<open>The steps of the system\<close>

lemma polling_simps [simp]:
  "\<not> polling NotSpawned" "\<not> polling Deriving" "polling Polling" "polling (Resending v)"
  "\<not> polling ForkHtml" "\<not> polling WaitThumb" "\<not> polling GateWait" "\<not> polling Displaying"
  "\<not> polling WaitDisplay" "\<not> polling Asking" "\<not> polling Captioning" "\<not> polling (CapHtml c)"
  "\<not> polling SendTurn" "\<not> polling SendGate" "\<not> polling (Exited r)"
  by (simp_all add: polling_def)

lemma waiting_simps [simp]:
  "waiting NotSpawned" "waiting Deriving" "waiting Polling" "waiting (Resending v)"
  "\<not> waiting ForkHtml" "\<not> waiting WaitThumb" "\<not> waiting GateWait" "\<not> waiting Displaying"
  "\<not> waiting WaitDisplay" "\<not> waiting Asking" "\<not> waiting Captioning" "\<not> waiting (CapHtml c)"
  "\<not> waiting SendTurn" "\<not> waiting SendGate" "waiting (Exited r)"
  by (simp_all add: waiting_def)

lemma released_simps [simp]:
  "\<not> released NotSpawned" "\<not> released Deriving" "\<not> released Polling" "\<not> released (Resending v)"
  "\<not> released ForkHtml" "\<not> released WaitThumb" "\<not> released GateWait" "\<not> released Displaying"
  "\<not> released WaitDisplay" "\<not> released Asking" "\<not> released Captioning" "\<not> released (CapHtml c)"
  "\<not> released SendTurn" "released SendGate" "released (Exited r)"
  by (simp_all add: released_def)

lemma holding_simps [simp]:
  "\<not> holding NotSpawned" "\<not> holding Deriving" "\<not> holding Polling" "\<not> holding (Resending v)"
  "holding ForkHtml" "holding WaitThumb" "holding GateWait" "holding Displaying"
  "holding WaitDisplay" "holding Asking" "holding Captioning" "holding (CapHtml c)"
  "holding SendTurn" "\<not> holding SendGate" "\<not> holding (Exited r)"
  by (simp_all add: holding_def)

lemma is_handoff_simps [simp]:
  "\<not> is_handoff (Spawn k)" "\<not> is_handoff (Call k c)" "\<not> is_handoff (TurnRecv k v)"
  "\<not> is_handoff (Resent k v)" "is_handoff (HandOff k v)" "\<not> is_handoff (LinkFork k)"
  "\<not> is_handoff (LinkWrite k)" "\<not> is_handoff (CapWrite k)" "\<not> is_handoff (GateRecv k v)"
  "\<not> is_handoff (GateErr k)" "\<not> is_handoff (GateSent k v)" "\<not> is_handoff (Exit k r)"
  by (simp_all add: is_handoff_def)

lemma goto_simps [simp]:
  "pcs (goto k p as s) = (pcs s)(k := p)"
  "trace (goto k p as s) = trace s @ as"
  "items (goto k p as s) = items s"
  "spc (goto k p as s) = spc s"
  "loop_i (goto k p as s) = loop_i s"
  "pid (goto k p as s) = pid s"
  "html (goto k p as s) = html s"
  "ptp1 (goto k p as s) = ptp1 s"
  "ptp2 (goto k p as s) = ptp2 s"
  "index_html (goto k p as s) = index_html s"
  "stderr (goto k p as s) = stderr s"
  by (simp_all add: goto_def)

lemma die_goto: "die k s = goto k (Exited (- 1)) [Exit k (- 1)] s"
  by (simp add: die_def goto_def)

lemma img_step_simps:
  "pcs s k = NotSpawned \<Longrightarrow> process_img_step k oc s = None"
  "pcs s k = Exited r \<Longrightarrow> process_img_step k oc s = None"
  "pcs s k = Deriving \<Longrightarrow> process_img_step k oc s =
     Some (goto k (if k \<noteq> 1 then Polling else ForkHtml)
         [Call k (Resize (items s ! (k - 1)) (thumb_name (items s ! (k - 1))) ''10%''),
          Call k (Resize (items s ! (k - 1)) (med_name (items s ! (k - 1))) ''25%'')] s)"
  "pcs s k = Polling \<Longrightarrow> process_img_step k oc s =
     (if oc = Err then Some (goto k (Exited (- 1)) [Exit k (- 1)] s)
      else case ptp2 s of [] \<Rightarrow> None
        | v # rest \<Rightarrow> Some (goto k (if k \<noteq> v then Resending v else ForkHtml) [TurnRecv k v]
                          (s\<lparr>ptp2 := rest\<rparr>)))"
  "pcs s k = Resending v \<Longrightarrow> process_img_step k oc s =
     (if oc = Err then Some (goto k (Exited (- 1)) [Exit k (- 1)] s)
      else Some (goto k Polling [Resent k v] (s\<lparr>ptp2 := ptp2 s @ [v]\<rparr>)))"
  "pcs s k = ForkHtml \<Longrightarrow> process_img_step k oc s =
     Some (goto k WaitThumb [LinkFork k] (s\<lparr>html := (html s)(k := HPending)\<rparr>))"
  "pcs s k = WaitThumb \<Longrightarrow> process_img_step k oc s =
     Some (goto k (if k \<noteq> 1 then GateWait else Displaying) [] s)"
  "pcs s k = GateWait \<Longrightarrow> process_img_step k oc s =
     (if oc = Err then Some (goto k Displaying [GateErr k] s)
      else case ptp1 s of [] \<Rightarrow> None
        | v # rest \<Rightarrow> Some (goto k Displaying [GateRecv k v] (s\<lparr>ptp1 := rest\<rparr>)))"
  "pcs s k = Displaying \<Longrightarrow> process_img_step k oc s =
     Some (goto k WaitDisplay [Call k (Display (thumb_name (items s ! (k - 1))))] s)"
  "pcs s k = WaitDisplay \<Longrightarrow> process_img_step k oc s = Some (goto k Asking [] s)"
  "pcs s k = Asking \<Longrightarrow> process_img_step k oc s =
     Some (goto k Captioning
       (map (Call k) (rotate_calls (thumb_name (items s ! (k - 1))) (med_name (items s ! (k - 1)))
          (ask_user oc))) s)"
  "pcs s k = Captioning \<Longrightarrow> process_img_step k oc s =
     Some (goto k (CapHtml (cstr (text_of oc))) [] s)"
  "pcs s k = CapHtml c \<Longrightarrow> process_img_step k oc s =
     (if snd (cap_html c oc (index_html s)) \<noteq> 0 then Some (goto k (Exited (- 1)) [Exit k (- 1)] s)
      else Some (goto k SendTurn [CapWrite k] (s\<lparr>index_html := fst (cap_html c oc (index_html s))\<rparr>)))"
  "pcs s k = SendTurn \<Longrightarrow> process_img_step k oc s =
     (if oc = Err then Some (goto k (Exited (- 1)) [Exit k (- 1)] s)
      else Some (goto k SendGate [HandOff k (k + 1)] (s\<lparr>ptp2 := ptp2 s @ [k + 1]\<rparr>)))"
  "pcs s k = SendGate \<Longrightarrow> process_img_step k oc s =
     (if oc = Err then Some (goto k (Exited (- 1)) [Exit k (- 1)] s)
      else Some (goto k (Exited 0) [GateSent k (k + 1), Exit k 0] (s\<lparr>ptp1 := ptp1 s @ [k + 1]\<rparr>)))"
  by (simp_all add: process_img_step_def Let_def die_goto split: prod.splits)

lemma rotate_calls_rotate: "\<forall>c\<in>set (rotate_calls a b d). is_rotate c"
  by (auto simp: rotate_calls_def is_rotate_def)

lemma work_cases [consumes 1, case_names Derive Die Mine Other Resend Fork Thumb GateErr GateRecv
    Display Closed Ask Caption Cap HandOff Gate]:
  assumes "process_img_step k oc s = Some s'"
  obtains
    "pcs s k = Deriving"
      "s' = goto k (if k \<noteq> 1 then Polling else ForkHtml)
         [Call k (Resize (items s ! (k - 1)) (thumb_name (items s ! (k - 1))) ''10%''),
          Call k (Resize (items s ! (k - 1)) (med_name (items s ! (k - 1))) ''25%'')] s"
  | "die_point (pcs s k)" "s' = goto k (Exited (- 1)) [Exit k (- 1)] s"
  | rest where "pcs s k = Polling" "ptp2 s = k # rest"
      "s' = goto k ForkHtml [TurnRecv k k] (s\<lparr>ptp2 := rest\<rparr>)"
  | v rest where "pcs s k = Polling" "ptp2 s = v # rest" "v \<noteq> k"
      "s' = goto k (Resending v) [TurnRecv k v] (s\<lparr>ptp2 := rest\<rparr>)"
  | v where "pcs s k = Resending v"
      "s' = goto k Polling [Resent k v] (s\<lparr>ptp2 := ptp2 s @ [v]\<rparr>)"
  | "pcs s k = ForkHtml"
      "s' = goto k WaitThumb [LinkFork k] (s\<lparr>html := (html s)(k := HPending)\<rparr>)"
  | "pcs s k = WaitThumb" "s' = goto k (if k \<noteq> 1 then GateWait else Displaying) [] s"
  | "pcs s k = GateWait" "s' = goto k Displaying [GateErr k] s"
  | v rest where "pcs s k = GateWait" "ptp1 s = v # rest"
      "s' = goto k Displaying [GateRecv k v] (s\<lparr>ptp1 := rest\<rparr>)"
  | "pcs s k = Displaying"
      "s' = goto k WaitDisplay [Call k (Display (thumb_name (items s ! (k - 1))))] s"
  | "pcs s k = WaitDisplay" "s' = goto k Asking [] s"
  | cs where "pcs s k = Asking" "s' = goto k Captioning (map (Call k) cs) s"
      "\<forall>c\<in>set cs. is_rotate c"
  | c where "pcs s k = Captioning" "s' = goto k (CapHtml c) [] s"
  | c f where "pcs s k = CapHtml c" "s' = goto k SendTurn [CapWrite k] (s\<lparr>index_html := f\<rparr>)"
  | "pcs s k = SendTurn"
      "s' = goto k SendGate [HandOff k (k + 1)] (s\<lparr>ptp2 := ptp2 s @ [k + 1]\<rparr>)"
  | "pcs s k = SendGate"
      "s' = goto k (Exited 0) [GateSent k (k + 1), Exit k 0] (s\<lparr>ptp1 := ptp1 s @ [k + 1]\<rparr>)"
proof (cases "pcs s k")
  case NotSpawned
  with assms show ?thesis by (auto simp: img_step_simps)
next
  case Deriving
  with assms that(1) show ?thesis by (auto simp: img_step_simps)
next
  case Polling
  show ?thesis
  proof (cases "oc = Err")
    case True
    with Polling assms that(2) show ?thesis by (auto simp: img_step_simps die_point_def)
  next
    case False
    with Polling assms obtain v rest where v: "ptp2 s = v # rest"
      and s': "s' = goto k (if k \<noteq> v then Resending v else ForkHtml) [TurnRecv k v] (s\<lparr>ptp2 := rest\<rparr>)"
      by (auto simp: img_step_simps split: list.splits)
    show ?thesis
    proof (cases "v = k")
      case True
      with v s' Polling that(3) show ?thesis by simp
    next
      case False
      with v s' Polling that(4) [of v rest] show ?thesis by simp
    qed
  qed
next
  case (Resending v)
  with assms that(2,5) show ?thesis
    by (cases "oc = Err") (auto simp: img_step_simps die_point_def)
next
  case ForkHtml
  with assms that(6) show ?thesis by (auto simp: img_step_simps)
next
  case WaitThumb
  with assms that(7) show ?thesis by (auto simp: img_step_simps)
next
  case GateWait
  show ?thesis
  proof (cases "oc = Err")
    case True
    with GateWait assms that(8) show ?thesis by (auto simp: img_step_simps)
  next
    case False
    with GateWait assms obtain v rest where "ptp1 s = v # rest"
      "s' = goto k Displaying [GateRecv k v] (s\<lparr>ptp1 := rest\<rparr>)"
      by (auto simp: img_step_simps split: list.splits)
    with GateWait that(9) show ?thesis by simp
  qed
next
  case Displaying
  with assms that(10) show ?thesis by (auto simp: img_step_simps)
next
  case WaitDisplay
  with assms that(11) show ?thesis by (auto simp: img_step_simps)
next
  case Asking
  with assms that(12) rotate_calls_rotate show ?thesis by (auto simp: img_step_simps)
next
  case Captioning
  with assms that(13) show ?thesis by (auto simp: img_step_simps)
next
  case (CapHtml c)
  with assms that(2,14) show ?thesis
    by (cases "snd (cap_html c oc (index_html s)) \<noteq> 0") (auto simp: img_step_simps die_point_def)
next
  case SendTurn
  with assms that(2,15) show ?thesis
    by (cases "oc = Err") (auto simp: img_step_simps die_point_def)
next
  case SendGate
  with assms that(2,16) show ?thesis
    by (cases "oc = Err") (auto simp: img_step_simps die_point_def)
next
  case (Exited r)
  with assms show ?thesis by (auto simp: img_step_simps)
qed

lemma alive_simps [simp]:
  "\<not> alive NotSpawned" "\<not> alive (Exited r)" "alive Deriving" "alive Polling" "alive (Resending v)"
  "alive ForkHtml" "alive WaitThumb" "alive GateWait" "alive Displaying" "alive WaitDisplay"
  "alive Asking" "alive Captioning" "alive (CapHtml c)" "alive SendTurn" "alive SendGate"
  by (simp_all add: alive_def)

lemma alive_spawned: "alive p \<Longrightarrow> p \<noteq> NotSpawned"
  by auto

lemma process_step_simps:
  "spc s = SPipes \<Longrightarrow> process_step oc s =
      (if oc = Err
       then Some (s\<lparr>spc := SReturned (- 1), stderr := stderr s @ [''failed to create a pipe'' @ [newline]]\<rparr>)
       else Some (s\<lparr>spc := (if 0 < length (items s) then SPoll else SReturned 0), loop_i := 0\<rparr>))"
  "spc s = SPoll \<Longrightarrow> process_step oc s =
      (if concurrent (pcs s) (junk_of oc) (pid s) \<ge> max_conversions then Some s
       else Some (s\<lparr>spc := SFork\<rparr>))"
  "spc s = SFork \<Longrightarrow> process_step oc s =
      Some (s\<lparr>pid := (pid s)[loop_i s := Pid (Suc (loop_i s))],
              pcs := (pcs s)(Suc (loop_i s) := Deriving),
              trace := trace s @ [Spawn (Suc (loop_i s))],
              loop_i := (if Suc (loop_i s) < length (items s) then Suc (loop_i s) else 0),
              spc := (if Suc (loop_i s) < length (items s) then SPoll else SReap)\<rparr>)"
  "spc s = SReap \<Longrightarrow> process_step oc s =
      (case pcs s (Suc (loop_i s)) of
         Exited r \<Rightarrow>
           Some (s\<lparr>loop_i := Suc (loop_i s),
                  spc := (if Suc (loop_i s) < length (items s) then SReap else SReturned 0)\<rparr>)
       | _ \<Rightarrow> None)"
  "spc s = SReturned r \<Longrightarrow> process_step oc s = None"
  unfolding process_step_def by simp_all

lemma sched_cases [consumes 1, case_names PipeErr Pipes Sleep Admit Fork Reap]:
  assumes "process_step oc s = Some s'"
  obtains
    "spc s = SPipes"
      "s' = s\<lparr>spc := SReturned (- 1), stderr := stderr s @ [''failed to create a pipe'' @ [newline]]\<rparr>"
  | "spc s = SPipes"
      "s' = s\<lparr>spc := (if 0 < length (items s) then SPoll else SReturned 0), loop_i := 0\<rparr>"
  | "spc s = SPoll" "max_conversions \<le> concurrent (pcs s) (junk_of oc) (pid s)" "s' = s"
  | "spc s = SPoll" "concurrent (pcs s) (junk_of oc) (pid s) < max_conversions" "s' = s\<lparr>spc := SFork\<rparr>"
  | "spc s = SFork"
      "s' = s\<lparr>pid := (pid s)[loop_i s := Pid (Suc (loop_i s))],
              pcs := (pcs s)(Suc (loop_i s) := Deriving),
              trace := trace s @ [Spawn (Suc (loop_i s))],
              loop_i := (if Suc (loop_i s) < length (items s) then Suc (loop_i s) else 0),
              spc := (if Suc (loop_i s) < length (items s) then SPoll else SReap)\<rparr>"
  | r where "spc s = SReap" "pcs s (Suc (loop_i s)) = Exited r"
      "s' = s\<lparr>loop_i := Suc (loop_i s),
              spc := (if Suc (loop_i s) < length (items s) then SReap else SReturned 0)\<rparr>"
proof (cases "spc s")
  case SPipes
  show ?thesis
  proof (cases "oc = Err")
    case True
    with assms SPipes have "s' = s\<lparr>spc := SReturned (- 1), stderr := stderr s @ [''failed to create a pipe'' @ [newline]]\<rparr>"
      by (simp add: process_step_simps)
    with SPipes that(1) show ?thesis by blast
  next
    case False
    with assms SPipes have "s' = s\<lparr>spc := (if 0 < length (items s) then SPoll else SReturned 0), loop_i := 0\<rparr>"
      by (simp add: process_step_simps)
    with SPipes that(2) show ?thesis by blast
  qed
next
  case SPoll
  show ?thesis
  proof (cases "max_conversions \<le> concurrent (pcs s) (junk_of oc) (pid s)")
    case True
    with assms SPoll have "s' = s" by (simp add: process_step_simps)
    with SPoll True that(3) show ?thesis by blast
  next
    case False
    with assms SPoll have "s' = s\<lparr>spc := SFork\<rparr>" by (simp add: process_step_simps)
    with SPoll False that(4) show ?thesis by simp
  qed
next
  case SFork
  with assms have "s' = s\<lparr>pid := (pid s)[loop_i s := Pid (Suc (loop_i s))],
              pcs := (pcs s)(Suc (loop_i s) := Deriving),
              trace := trace s @ [Spawn (Suc (loop_i s))],
              loop_i := (if Suc (loop_i s) < length (items s) then Suc (loop_i s) else 0),
              spc := (if Suc (loop_i s) < length (items s) then SPoll else SReap)\<rparr>"
    by (simp add: process_step_simps)
  with SFork that(5) show ?thesis by blast
next
  case SReap
  with assms obtain r where "pcs s (Suc (loop_i s)) = Exited r"
    "s' = s\<lparr>loop_i := Suc (loop_i s),
              spc := (if Suc (loop_i s) < length (items s) then SReap else SReturned 0)\<rparr>"
    by (cases "pcs s (Suc (loop_i s))") (simp_all add: process_step_simps)
  with SReap that(6) show ?thesis by blast
next
  case (SReturned r)
  with assms show ?thesis by (simp add: process_step_simps)
qed

lemma html_cases [consumes 1]:
  assumes "html_step k oc s = Some s'"
  obtains rc f as where "html s k = HPending"
    "s' = s\<lparr>html := (html s)(k := HExited rc), index_html := f, trace := trace s @ as\<rparr>"
    "as = [LinkWrite k] \<or> as = []"
  using assms
  by (cases "html s k"; cases "img_html (thumb_name (items s ! (k - 1))) (med_name (items s ! (k - 1))) k oc (index_html s)")
     (auto simp: html_step_def Let_def)

lemma concurrent_lower:
  "length (filter (\<lambda>k. alive (f k)) ks) \<le> concurrent f orc (map Pid ks @ rest)"
proof (induction ks arbitrary: orc)
  case Nil
  then show ?case by simp
next
  case (Cons k ks)
  from Cons [of "tl orc"] show ?case by simp
qed

lemma alive_range:
  assumes "\<forall>k. f k \<noteq> NotSpawned \<longrightarrow> 0 < k \<and> k \<le> n" and "alive (f k)"
  shows "k \<in> set [1..<Suc n]"
proof -
  from assms(2) have "f k \<noteq> NotSpawned" by (rule alive_spawned)
  with assms(1) have "0 < k \<and> k \<le> n" by blast
  then show ?thesis by (simp del: upt_Suc)
qed

lemma alive_card:
  assumes "\<forall>k. f k \<noteq> NotSpawned \<longrightarrow> 0 < k \<and> k \<le> n"
  shows "card {k. alive (f k)} = length (filter (\<lambda>k. alive (f k)) [1..<Suc n])"
proof -
  have "{k. alive (f k)} = {k. k \<in> set [1..<Suc n] \<and> alive (f k)}"
    using alive_range [OF assms] by blast
  also have "\<dots> = set (filter (\<lambda>k. alive (f k)) [1..<Suc n])"
    by (simp only: set_filter)
  finally have *: "{k. alive (f k)} = set (filter (\<lambda>k. alive (f k)) [1..<Suc n])" .
  show ?thesis
    unfolding * by (rule distinct_card) simp
qed

lemma alive_finite:
  assumes "\<forall>k. f k \<noteq> NotSpawned \<longrightarrow> 0 < k \<and> k \<le> (n::nat)"
  shows "finite {k. alive (f k)}"
proof -
  have "{k. alive (f k)} \<subseteq> set [1..<Suc n]" using alive_range [OF assms] by blast
  then show ?thesis by (rule finite_subset) (rule finite_set)
qed

lemma pid_fork:
  assumes "n < N"
  shows "(map Pid [1..<Suc n] @ replicate (N - n) Uninit)[n := Pid (Suc n)] =
         map Pid [1..<Suc (Suc n)] @ replicate (N - Suc n) Uninit"
proof -
  from assms obtain m where m: "N - n = Suc m" "N - Suc n = m"
    by (cases "N - n") auto
  have "length (map Pid [1..<Suc n]) = n" by simp
  then have "(map Pid [1..<Suc n] @ replicate (Suc m) Uninit)[n := Pid (Suc n)] =
      map Pid [1..<Suc n] @ (replicate (Suc m) Uninit)[0 := Pid (Suc n)]"
    by (metis diff_self_eq_0 list_update_append less_irrefl)
  also have "(replicate (Suc m) Uninit)[0 := Pid (Suc n)] = Pid (Suc n) # replicate m Uninit"
    by simp
  also have "map Pid [1..<Suc n] @ Pid (Suc n) # replicate m Uninit =
      map Pid [1..<Suc (Suc n)] @ replicate m Uninit"
    by simp
  finally show ?thesis unfolding m .
qed

lemma nalive_worker:
  assumes "sched_inv s" and "pcs s k \<noteq> NotSpawned" and "p \<noteq> NotSpawned"
  shows "card {j. alive (((pcs s)(k := p)) j)} \<le> card {j. alive (pcs s j)} + (if alive p then 1 else 0)"
    and "alive (pcs s k) \<Longrightarrow> card {j. alive (((pcs s)(k := p)) j)} \<le> card {j. alive (pcs s j)}"
proof -
  have fin: "finite {j. alive (pcs s j)}"
    using assms(1) alive_finite [of "pcs s" "nspawned s"] by (simp add: sched_inv_def)
  have "{j. alive (((pcs s)(k := p)) j)} \<subseteq> insert k {j. alive (pcs s j)}" by auto
  then have "card {j. alive (((pcs s)(k := p)) j)} \<le> card (insert k {j. alive (pcs s j)})"
    using fin by (intro card_mono) auto
  also have "\<dots> \<le> Suc (card {j. alive (pcs s j)})" using fin by (simp add: card_insert_if)
  finally have a: "card {j. alive (((pcs s)(k := p)) j)} \<le> Suc (card {j. alive (pcs s j)})" .
  have b: "\<not> alive p \<Longrightarrow> {j. alive (((pcs s)(k := p)) j)} \<subseteq> {j. alive (pcs s j)}" by auto
  show "card {j. alive (((pcs s)(k := p)) j)} \<le> card {j. alive (pcs s j)} + (if alive p then 1 else 0)"
    using a card_mono [OF fin b] by auto
  assume "alive (pcs s k)"
  then have "{j. alive (((pcs s)(k := p)) j)} \<subseteq> {j. alive (pcs s j)}" by auto
  then show "card {j. alive (((pcs s)(k := p)) j)} \<le> card {j. alive (pcs s j)}"
    using fin by (intro card_mono)
qed

lemma is_spawn_simps [simp]:
  "is_spawn (Spawn k)" "\<not> is_spawn (Call k c)" "\<not> is_spawn (TurnRecv k v)" "\<not> is_spawn (Resent k v)"
  "\<not> is_spawn (HandOff k v)" "\<not> is_spawn (LinkFork k)" "\<not> is_spawn (LinkWrite k)"
  "\<not> is_spawn (CapWrite k)" "\<not> is_spawn (GateRecv k v)" "\<not> is_spawn (GateErr k)"
  "\<not> is_spawn (GateSent k v)" "\<not> is_spawn (Exit k r)"
  by (simp_all add: is_spawn_def)

lemma sched_invD:
  assumes "sched_inv s"
  shows "nspawned s \<le> length (items s)"
    and "filter is_spawn (trace s) = map Spawn [1..<Suc (nspawned s)]"
    and "pcs s k \<noteq> NotSpawned \<longleftrightarrow> 0 < k \<and> k \<le> nspawned s"
    and "pid s = map Pid [1..<Suc (nspawned s)] @ replicate (length (items s) - nspawned s) Uninit"
    and "spc s = SPoll \<or> spc s = SFork \<Longrightarrow> loop_i s = nspawned s \<and> nspawned s < length (items s)"
    and "spc s = SPipes \<Longrightarrow> nspawned s = 0"
    and "nalive s \<le> max_conversions"
    and "spc s = SFork \<Longrightarrow> nalive s < max_conversions"
  using assms unfolding sched_inv_def by blast+

lemma sched_invI:
  assumes "nspawned s \<le> length (items s)"
    and "filter is_spawn (trace s) = map Spawn [1..<Suc (nspawned s)]"
    and "\<And>k. pcs s k \<noteq> NotSpawned \<longleftrightarrow> 0 < k \<and> k \<le> nspawned s"
    and "pid s = map Pid [1..<Suc (nspawned s)] @ replicate (length (items s) - nspawned s) Uninit"
    and "spc s = SPoll \<or> spc s = SFork \<Longrightarrow> loop_i s = nspawned s \<and> nspawned s < length (items s)"
    and "spc s = SPipes \<Longrightarrow> nspawned s = 0"
    and "nalive s \<le> max_conversions"
    and "spc s = SFork \<Longrightarrow> nalive s < max_conversions"
  shows "sched_inv s"
  using assms unfolding sched_inv_def by blast

lemma sched_inv_goto:
  assumes inv: "sched_inv s" and al: "alive (pcs s k)" and p: "p \<noteq> NotSpawned"
    and as: "\<forall>a\<in>set as. \<not> is_spawn a"
    and same: "items t = items s" "spc t = spc s" "loop_i t = loop_i s" "pid t = pid s"
      "pcs t = pcs s" "trace t = trace s"
  shows "sched_inv (goto k p as t)"
proof -
  note d = sched_invD [OF inv]
  have f: "filter is_spawn (trace s @ as) = filter is_spawn (trace s)"
    using as by simp
  then have n: "nspawned (goto k p as t) = nspawned s"
    by (simp add: nspawned_def same)
  have k: "pcs s k \<noteq> NotSpawned" using al by (rule alive_spawned)
  have c: "nalive (goto k p as t) \<le> nalive s"
    using nalive_worker(2) [OF inv k p al] by (simp add: nalive_def same)
  show ?thesis
  proof (rule sched_invI; (unfold n)?)
    show "nspawned s \<le> length (items (goto k p as t))" using d(1) by (simp add: same)
    show "filter is_spawn (trace (goto k p as t)) = map Spawn [1..<Suc (nspawned s)]"
      using d(2) f by (simp add: same del: upt_Suc)
    show "pcs (goto k p as t) j \<noteq> NotSpawned \<longleftrightarrow> 0 < j \<and> j \<le> nspawned s" for j
      using d(3) [of j] d(3) [of k] k p by (simp add: same)
    show "pid (goto k p as t) =
        map Pid [1..<Suc (nspawned s)] @ replicate (length (items (goto k p as t)) - nspawned s) Uninit"
      using d(4) by (simp add: same del: upt_Suc)
    show "loop_i (goto k p as t) = nspawned s \<and> nspawned s < length (items (goto k p as t))"
      if "spc (goto k p as t) = SPoll \<or> spc (goto k p as t) = SFork"
      using d(5) that by (simp add: same)
    show "nspawned s = 0" if "spc (goto k p as t) = SPipes"
      using d(6) that by (simp add: same)
    show "nalive (goto k p as t) \<le> max_conversions" using c d(7) by simp
    show "nalive (goto k p as t) < max_conversions" if "spc (goto k p as t) = SFork"
      using c d(8) that by (simp add: same)
  qed
qed

lemma sched_inv_work:
  assumes "sched_inv s" and "process_img_step k oc s = Some s'"
  shows "sched_inv s'"
  using assms(2)
proof (cases rule: work_cases)
  case Die
  then have "alive (pcs s k)" by (cases "pcs s k") (simp_all add: die_point_def)
  with Die assms(1) show ?thesis by (simp add: sched_inv_goto [where s = s])
next
  case (Ask cs)
  with assms(1) show ?thesis by (simp add: sched_inv_goto [where s = s])
qed (simp_all add: sched_inv_goto [where s = s] assms(1))

lemma sched_inv_html:
  assumes "sched_inv s" and "html_step k oc s = Some s'"
  shows "sched_inv s'"
  using assms(2)
proof (cases rule: html_cases)
  case (1 rc f as)
  then have "filter is_spawn (trace s') = filter is_spawn (trace s)" by auto
  with 1 assms(1) show ?thesis by (simp add: sched_inv_def nspawned_def nalive_def)
qed

lemma sched_inv_entry: "sched_inv (process_entry its f)"
  by (auto simp: sched_inv_def process_entry_def nspawned_def nalive_def)

lemma sched_inv_sched:
  assumes inv: "sched_inv s" and st: "process_step oc s = Some s'"
  shows "sched_inv s'"
  using st
proof (cases rule: sched_cases)
  case PipeErr
  note d = sched_invD [OF inv]
  have n: "nspawned s' = nspawned s" "nalive s' = nalive s"
    using PipeErr by (simp_all add: nspawned_def nalive_def)
  show ?thesis
    by (rule sched_invI; (unfold n)?) (use PipeErr d in \<open>simp_all del: upt_Suc\<close>)
next
  case Pipes
  note d = sched_invD [OF inv]
  have n: "nspawned s' = nspawned s" "nalive s' = nalive s"
    using Pipes by (simp_all add: nspawned_def nalive_def)
  have "pcs s k = NotSpawned" for k using d(3) [of k] d(6) Pipes(1) by auto
  then have z: "nalive s = 0" by (simp add: nalive_def)
  show ?thesis
    by (rule sched_invI; (unfold n)?) (use Pipes d z in \<open>simp_all add: max_conversions_def del: upt_Suc split: if_splits\<close>)
next
  case Sleep
  with inv show ?thesis by simp
next
  case Admit
  note d = sched_invD [OF inv]
  have n: "nspawned s' = nspawned s" "nalive s' = nalive s"
    using Admit by (simp_all add: nspawned_def nalive_def)
  have "nalive s = length (filter (\<lambda>k. alive (pcs s k)) [1..<Suc (nspawned s)])"
    unfolding nalive_def using d(3) by (intro alive_card) blast
  also have "\<dots> \<le> concurrent (pcs s) (junk_of oc) (pid s)"
    unfolding d(4) by (rule concurrent_lower)
  finally have lt: "nalive s < max_conversions" using Admit(2) by simp
  show ?thesis
    by (rule sched_invI; (unfold n)?) (use Admit d lt in \<open>simp_all del: upt_Suc\<close>)
next
  case Fork
  note d = sched_invD [OF inv]
  from d(5) Fork(1) have l: "loop_i s = nspawned s" "nspawned s < length (items s)" by simp_all
  have n: "nspawned s' = Suc (nspawned s)"
    using Fork by (simp add: nspawned_def)
  have un: "pcs s (Suc (nspawned s)) = NotSpawned" using d(3) [of "Suc (nspawned s)"] by simp
  have fin: "finite {j. alive (pcs s j)}"
    using alive_finite [of "pcs s" "nspawned s"] d(3) by blast
  have "{j. alive (pcs s' j)} \<subseteq> insert (Suc (nspawned s)) {j. alive (pcs s j)}"
    using Fork(2) l by auto
  then have "card {j. alive (pcs s' j)} \<le> card (insert (Suc (nspawned s)) {j. alive (pcs s j)})"
    using fin by (intro card_mono) auto
  also have "\<dots> \<le> Suc (card {j. alive (pcs s j)})" using fin by (simp add: card_insert_if)
  finally have c: "nalive s' \<le> Suc (nalive s)" by (simp add: nalive_def)
  show ?thesis
  proof (rule sched_invI; (unfold n)?)
    show "Suc (nspawned s) \<le> length (items s')" using l Fork(2) by simp
    show "filter is_spawn (trace s') = map Spawn [1..<Suc (Suc (nspawned s))]"
      using d(2) Fork(2) l by simp
    show "pcs s' k \<noteq> NotSpawned \<longleftrightarrow> 0 < k \<and> k \<le> Suc (nspawned s)" for k
      using d(3) [of k] Fork(2) l by auto
    show "pid s' = map Pid [1..<Suc (Suc (nspawned s))] @
        replicate (length (items s') - Suc (nspawned s)) Uninit"
      using pid_fork [OF l(2)] d(4) Fork(2) l(1) by (simp del: upt_Suc)
    show "loop_i s' = Suc (nspawned s) \<and> Suc (nspawned s) < length (items s')"
      if "spc s' = SPoll \<or> spc s' = SFork"
      using that Fork(2) l by (simp split: if_splits)
    show "Suc (nspawned s) = 0" if "spc s' = SPipes"
      using that Fork(2) by (simp split: if_splits)
    show "nalive s' \<le> max_conversions" using c d(8) Fork(1) by simp
    show "nalive s' < max_conversions" if "spc s' = SFork"
      using that Fork(2) by (simp split: if_splits)
  qed
next
  case (Reap r)
  note d = sched_invD [OF inv]
  have n: "nspawned s' = nspawned s" "nalive s' = nalive s"
    using Reap by (simp_all add: nspawned_def nalive_def)
  show ?thesis
    by (rule sched_invI; (unfold n)?) (use Reap d in \<open>simp_all del: upt_Suc split: if_splits\<close>)
qed

lemma sched_inv_step:
  assumes "sched_inv s" and "step e s = Some s'"
  shows "sched_inv s'"
  using assms by (cases e) (auto intro: sched_inv_sched sched_inv_work sched_inv_html)

lemma sched_inv_run:
  assumes "sched_inv s" and "run es s = Some s'"
  shows "sched_inv s'"
  using assms
proof (induction es arbitrary: s)
  case Nil
  then show ?case by simp
next
  case (Cons e es)
  then show ?case by (auto split: option.splits dest: sched_inv_step)
qed

lemma turn_invD:
  assumes "turn_inv s"
  shows "0 < k \<Longrightarrow> k < turn s \<Longrightarrow> released (pcs s k)"
    and "turn s < k \<Longrightarrow> waiting (pcs s k)"
    and "\<not> polling (pcs s 1)" and "pcs s 1 \<noteq> GateWait"
    and "pcs s (turn s) \<noteq> SendGate"
    and "v \<in> set (ptp2 s) \<Longrightarrow> v = turn s"
    and "length (ptp2 s) \<le> 1"
    and "pcs s k = Resending v \<Longrightarrow> v = turn s \<and> ptp2 s = [] \<and> (\<forall>j w. pcs s j = Resending w \<longrightarrow> j = k)"
    and "holder s \<Longrightarrow> ptp2 s = [] \<and> (\<forall>k v. pcs s k \<noteq> Resending v)"
  using assms unfolding turn_inv_def by blast+

lemma turn_invI:
  assumes "\<And>k. 0 < k \<Longrightarrow> k < turn s \<Longrightarrow> released (pcs s k)"
    and "\<And>k. turn s < k \<Longrightarrow> waiting (pcs s k)"
    and "\<not> polling (pcs s 1)" and "pcs s 1 \<noteq> GateWait"
    and "pcs s (turn s) \<noteq> SendGate"
    and "\<And>v. v \<in> set (ptp2 s) \<Longrightarrow> v = turn s"
    and "length (ptp2 s) \<le> 1"
    and "\<And>k v. pcs s k = Resending v \<Longrightarrow> v = turn s \<and> ptp2 s = [] \<and> (\<forall>j w. pcs s j = Resending w \<longrightarrow> j = k)"
    and "holder s \<Longrightarrow> ptp2 s = [] \<and> (\<forall>k v. pcs s k \<noteq> Resending v)"
  shows "turn_inv s"
  using assms unfolding turn_inv_def by blast

lemma turn_goto: "trace t = trace s \<Longrightarrow> turn (goto k p as t) = turn s + length (filter is_handoff as)"
  by (simp add: turn_def)

text \<open>where a worker stands relative to the turn\<close>

lemma holding_is_turn:
  assumes "turn_inv s" and "sched_inv s" and "holding (pcs s k)"
  shows "k = turn s"
proof -
  have "pcs s k \<noteq> NotSpawned" using assms(3) by auto
  then have "0 < k" using sched_invD(3) [OF assms(2), of k] by simp
  then show ?thesis
    using turn_invD(1) [OF assms(1), of k] turn_invD(2) [OF assms(1), of k] assms(3)
    by (cases "k < turn s"; cases "turn s < k") (auto simp: holding_def)
qed

lemma turn_inv_hold:
  assumes inv: "turn_inv s" and sch: "sched_inv s" and h: "holding (pcs s k)" and p: "holding p"
    and g: "k = 1 \<longrightarrow> p \<noteq> GateWait"
    and as: "\<forall>a\<in>set as. \<not> is_handoff a"
    and same: "ptp2 t = ptp2 s" "pcs t = pcs s" "trace t = trace s"
  shows "turn_inv (goto k p as t)"
proof -
  note d = turn_invD [OF inv]
  have k: "k = turn s" by (rule holding_is_turn [OF inv sch h])
  have n: "turn (goto k p as t) = turn s" using as by (simp add: turn_goto same)
  have ho: "holder s" using h k by (simp add: holder_def)
  show ?thesis
  proof (rule turn_invI; (unfold n)?)
    show "released (pcs (goto k p as t) j)" if "0 < j" "j < turn s" for j
      using d(1) [of j] that k by (simp add: same)
    show "waiting (pcs (goto k p as t) j)" if "turn s < j" for j
      using d(2) [of j] that k by (simp add: same)
    show "\<not> polling (pcs (goto k p as t) 1)" using d(3) p by (auto simp: same holding_def polling_def waiting_def split: pc.splits)
    show "pcs (goto k p as t) 1 \<noteq> GateWait" using d(4) g by (simp add: same)
    show "pcs (goto k p as t) (turn s) \<noteq> SendGate" using p k by (auto simp: same)
    show "v = turn s" if "v \<in> set (ptp2 (goto k p as t))" for v using that d(6) by (simp add: same)
    show "length (ptp2 (goto k p as t)) \<le> 1" using d(7) by (simp add: same)
    show "v = turn s \<and> ptp2 (goto k p as t) = [] \<and> (\<forall>j w. pcs (goto k p as t) j = Resending w \<longrightarrow> j = k')"
      if "pcs (goto k p as t) k' = Resending v" for k' v
      using that d(9) [OF ho] p by (auto simp: same split: if_splits)
    show "ptp2 (goto k p as t) = [] \<and> (\<forall>j v. pcs (goto k p as t) j \<noteq> Resending v)"
      using d(9) [OF ho] p by (auto simp: same)
  qed
qed

lemma spawned_pos:
  assumes "sched_inv s" and "pcs s k \<noteq> NotSpawned"
  shows "0 < k" and "k \<le> length (items s)"
  using sched_invD(3) [OF assms(1), of k] sched_invD(1) [OF assms(1)] assms(2) by simp_all

lemma not_released_ge_turn:
  assumes "turn_inv s" and "sched_inv s" and "pcs s k \<noteq> NotSpawned" and "\<not> released (pcs s k)"
  shows "turn s \<le> k"
  using turn_invD(1) [OF assms(1), of k] spawned_pos(1) [OF assms(2,3)] assms(4)
  by (cases "k < turn s") auto

lemma turn_inv_cong:
  assumes "turn_inv s" and "pcs s' = pcs s" and "ptp2 s' = ptp2 s" and "turn s' = turn s"
  shows "turn_inv s'"
  using assms(1) unfolding turn_inv_def holder_def assms(2,3,4) .

lemma holder_mono:
  assumes "turn s' = turn s"
    and "\<And>j. holding (pcs s' j) \<Longrightarrow> holding (pcs s j)"
    and "pcs s' 1 = NotSpawned \<or> pcs s' 1 = Deriving \<Longrightarrow> pcs s 1 = NotSpawned \<or> pcs s 1 = Deriving"
    and "holder s'"
  shows "holder s"
  using assms(2,3,4) unfolding holder_def assms(1) by blast

lemma turn_inv_derive:
  assumes inv: "turn_inv s" and sch: "sched_inv s" and h: "pcs s k = Deriving"
    and as: "\<forall>a\<in>set as. \<not> is_handoff a"
  shows "turn_inv (goto k (if k \<noteq> 1 then Polling else ForkHtml) as s)"
proof -
  note d = turn_invD [OF inv]
  let ?p = "if k \<noteq> 1 then Polling else ForkHtml"
  have n: "turn (goto k ?p as s) = turn s" using as by (simp add: turn_goto)
  have ge: "turn s \<le> k" using not_released_ge_turn [OF inv sch, of k] h by simp
  have t1: "k = 1 \<Longrightarrow> turn s = 1" using ge by (simp add: turn_def)
  have ho: "holder s" if "holder (goto k ?p as s)"
  proof (cases "k = 1")
    case True
    with t1 h show ?thesis by (simp add: holder_def)
  next
    case False
    show ?thesis
    proof (rule holder_mono [OF n _ _ that])
      show "holding (pcs s j)" if "holding (pcs (goto k ?p as s) j)" for j
        using that False by (cases "j = k") simp_all
      show "pcs s 1 = NotSpawned \<or> pcs s 1 = Deriving"
        if "pcs (goto k ?p as s) 1 = NotSpawned \<or> pcs (goto k ?p as s) 1 = Deriving"
        using that False by simp
    qed
  qed
  show ?thesis
  proof (rule turn_invI; (unfold n)?)
    show "released (pcs (goto k ?p as s) j)" if "0 < j" "j < turn s" for j
      using d(1) [of j] that ge by simp
    show "waiting (pcs (goto k ?p as s) j)" if "turn s < j" for j
      using d(2) [of j] that t1 by auto
    show "\<not> polling (pcs (goto k ?p as s) 1)" using d(3) by simp
    show "pcs (goto k ?p as s) 1 \<noteq> GateWait" using d(4) by simp
    show "pcs (goto k ?p as s) (turn s) \<noteq> SendGate" using d(5) by simp
    show "v = turn s" if "v \<in> set (ptp2 (goto k ?p as s))" for v using that d(6) by simp
    show "length (ptp2 (goto k ?p as s)) \<le> 1" using d(7) by simp
    show "v = turn s \<and> ptp2 (goto k ?p as s) = [] \<and>
        (\<forall>j w. pcs (goto k ?p as s) j = Resending w \<longrightarrow> j = k')"
      if "pcs (goto k ?p as s) k' = Resending v" for k' v
      using that d(8) [of k' v] h by (auto split: if_splits)
    show "ptp2 (goto k ?p as s) = [] \<and> (\<forall>j v. pcs (goto k ?p as s) j \<noteq> Resending v)"
      if "holder (goto k ?p as s)"
      using d(9) [OF ho [OF that]] by auto
  qed
qed

lemma turn_inv_exit:
  assumes inv: "turn_inv s" and sch: "sched_inv s" and h: "die_point (pcs s k)"
    and as: "\<forall>a\<in>set as. \<not> is_handoff a"
    and same: "ptp2 t = ptp2 s" "pcs t = pcs s" "trace t = trace s"
  shows "turn_inv (goto k (Exited r) as t)"
proof -
  note d = turn_invD [OF inv]
  have n: "turn (goto k (Exited r) as t) = turn s" using as by (simp add: turn_goto same)
  have ho: "holder s" if "holder (goto k (Exited r) as t)"
  proof (rule holder_mono [OF n _ _ that])
    show "holding (pcs s j)" if "holding (pcs (goto k (Exited r) as t) j)" for j
      using that by (cases "j = k") (simp_all add: same)
    show "pcs s 1 = NotSpawned \<or> pcs s 1 = Deriving"
      if "pcs (goto k (Exited r) as t) 1 = NotSpawned \<or> pcs (goto k (Exited r) as t) 1 = Deriving"
      using that by (cases "k = 1") (simp_all add: same)
  qed
  show ?thesis
  proof (rule turn_invI; (unfold n)?)
    show "released (pcs (goto k (Exited r) as t) j)" if "0 < j" "j < turn s" for j
      using d(1) [of j] that by (simp add: same)
    show "waiting (pcs (goto k (Exited r) as t) j)" if "turn s < j" for j
      using d(2) [of j] that by (simp add: same)
    show "\<not> polling (pcs (goto k (Exited r) as t) 1)" using d(3) by (simp add: same)
    show "pcs (goto k (Exited r) as t) 1 \<noteq> GateWait" using d(4) by (simp add: same)
    show "pcs (goto k (Exited r) as t) (turn s) \<noteq> SendGate" using d(5) by (simp add: same)
    show "v = turn s" if "v \<in> set (ptp2 (goto k (Exited r) as t))" for v
      using that d(6) by (simp add: same)
    show "length (ptp2 (goto k (Exited r) as t)) \<le> 1" using d(7) by (simp add: same)
    show "v = turn s \<and> ptp2 (goto k (Exited r) as t) = [] \<and>
        (\<forall>j w. pcs (goto k (Exited r) as t) j = Resending w \<longrightarrow> j = k')"
      if "pcs (goto k (Exited r) as t) k' = Resending v" for k' v
      using that d(8) [of k' v] by (auto simp: same split: if_splits)
    show "ptp2 (goto k (Exited r) as t) = [] \<and> (\<forall>j v. pcs (goto k (Exited r) as t) j \<noteq> Resending v)"
      if "holder (goto k (Exited r) as t)"
      using d(9) [OF ho [OF that]] by (auto simp: same)
  qed
qed

lemma turn_inv_mine:
  assumes inv: "turn_inv s" and sch: "sched_inv s" and h: "pcs s k = Polling"
    and q: "ptp2 s = k # rest"
  shows "turn_inv (goto k ForkHtml [TurnRecv k k] (s\<lparr>ptp2 := rest\<rparr>))"
proof -
  note d = turn_invD [OF inv]
  let ?s = "goto k ForkHtml [TurnRecv k k] (s\<lparr>ptp2 := rest\<rparr>)"
  have n: "turn ?s = turn s" by (simp add: turn_def)
  have k: "k = turn s" using d(6) [of k] q by simp
  have r: "rest = []" using d(7) q by simp
  have k1: "k \<noteq> 1" using d(3) h by auto
  have nr: "pcs s j \<noteq> Resending v" for j v using d(8) [of j v] q by auto
  show ?thesis
  proof (rule turn_invI; (unfold n)?)
    show "released (pcs ?s j)" if "0 < j" "j < turn s" for j
      using d(1) [of j] that k by simp
    show "waiting (pcs ?s j)" if "turn s < j" for j
      using d(2) [of j] that k by simp
    show "\<not> polling (pcs ?s 1)" using d(3) by simp
    show "pcs ?s 1 \<noteq> GateWait" using d(4) k1 by simp
    show "pcs ?s (turn s) \<noteq> SendGate" using k by simp
    show "v = turn s" if "v \<in> set (ptp2 ?s)" for v using that r by simp
    show "length (ptp2 ?s) \<le> 1" using r by simp
    show "v = turn s \<and> ptp2 ?s = [] \<and> (\<forall>j w. pcs ?s j = Resending w \<longrightarrow> j = k')"
      if "pcs ?s k' = Resending v" for k' v
      using that nr [of k' v] by (auto split: if_splits)
    show "ptp2 ?s = [] \<and> (\<forall>j v. pcs ?s j \<noteq> Resending v)"
      using r nr by auto
  qed
qed

lemma turn_inv_other:
  assumes inv: "turn_inv s" and sch: "sched_inv s" and h: "pcs s k = Polling"
    and q: "ptp2 s = v # rest" and vk: "v \<noteq> k"
  shows "turn_inv (goto k (Resending v) [TurnRecv k v] (s\<lparr>ptp2 := rest\<rparr>))"
proof -
  note d = turn_invD [OF inv]
  let ?s = "goto k (Resending v) [TurnRecv k v] (s\<lparr>ptp2 := rest\<rparr>)"
  have n: "turn ?s = turn s" by (simp add: turn_def)
  have v: "v = turn s" using d(6) [of v] q by simp
  have r: "rest = []" using d(7) q by simp
  have k1: "k \<noteq> 1" using d(3) h by auto
  have nr: "pcs s j \<noteq> Resending w" for j w using d(8) [of j w] q by auto
  have "turn s \<le> k" using not_released_ge_turn [OF inv sch, of k] h by simp
  then have gt: "turn s < k" using v vk by simp
  have nh: "\<not> holder s" using d(9) q by auto
  have ho: "holder s" if "holder ?s"
  proof (rule holder_mono [OF n _ _ that])
    show "holding (pcs s j)" if "holding (pcs ?s j)" for j
      using that by (cases "j = k") simp_all
    show "pcs s 1 = NotSpawned \<or> pcs s 1 = Deriving"
      if "pcs ?s 1 = NotSpawned \<or> pcs ?s 1 = Deriving"
      using that k1 by simp
  qed
  show ?thesis
  proof (rule turn_invI; (unfold n)?)
    show "released (pcs ?s j)" if "0 < j" "j < turn s" for j
      using d(1) [of j] that gt by simp
    show "waiting (pcs ?s j)" if "turn s < j" for j
      using d(2) [of j] that by simp
    show "\<not> polling (pcs ?s 1)" using d(3) k1 by simp
    show "pcs ?s 1 \<noteq> GateWait" using d(4) k1 by simp
    show "pcs ?s (turn s) \<noteq> SendGate" using d(5) gt by simp
    show "w = turn s" if "w \<in> set (ptp2 ?s)" for w using that r by simp
    show "length (ptp2 ?s) \<le> 1" using r by simp
    show "w = turn s \<and> ptp2 ?s = [] \<and> (\<forall>j w'. pcs ?s j = Resending w' \<longrightarrow> j = k')"
      if "pcs ?s k' = Resending w" for k' w
      using that nr v r by (auto split: if_splits)
    show "ptp2 ?s = [] \<and> (\<forall>j v. pcs ?s j \<noteq> Resending v)" if "holder ?s"
      using ho [OF that] nh by simp
  qed
qed

lemma turn_inv_resend:
  assumes inv: "turn_inv s" and sch: "sched_inv s" and h: "pcs s k = Resending v"
  shows "turn_inv (goto k Polling [Resent k v] (s\<lparr>ptp2 := ptp2 s @ [v]\<rparr>))"
proof -
  note d = turn_invD [OF inv]
  let ?s = "goto k Polling [Resent k v] (s\<lparr>ptp2 := ptp2 s @ [v]\<rparr>)"
  have n: "turn ?s = turn s" by (simp add: turn_def)
  from d(8) [OF h] have v: "v = turn s" and e: "ptp2 s = []"
    and u: "\<And>j w. pcs s j = Resending w \<Longrightarrow> j = k" by auto
  have k1: "k \<noteq> 1" using d(3) h by auto
  have ge: "turn s \<le> k" using not_released_ge_turn [OF inv sch, of k] h by simp
  have nh: "\<not> holder s" using d(9) h by auto
  have ho: "holder s" if "holder ?s"
  proof (rule holder_mono [OF n _ _ that])
    show "holding (pcs s j)" if "holding (pcs ?s j)" for j
      using that by (cases "j = k") simp_all
    show "pcs s 1 = NotSpawned \<or> pcs s 1 = Deriving"
      if "pcs ?s 1 = NotSpawned \<or> pcs ?s 1 = Deriving"
      using that k1 by simp
  qed
  show ?thesis
  proof (rule turn_invI; (unfold n)?)
    show "released (pcs ?s j)" if "0 < j" "j < turn s" for j
      using d(1) [of j] that ge by simp
    show "waiting (pcs ?s j)" if "turn s < j" for j
      using d(2) [of j] that by simp
    show "\<not> polling (pcs ?s 1)" using d(3) k1 by simp
    show "pcs ?s 1 \<noteq> GateWait" using d(4) k1 by simp
    show "pcs ?s (turn s) \<noteq> SendGate" using d(5) by simp
    show "w = turn s" if "w \<in> set (ptp2 ?s)" for w using that e v by simp
    show "length (ptp2 ?s) \<le> 1" using e by simp
    show "w = turn s \<and> ptp2 ?s = [] \<and> (\<forall>j w'. pcs ?s j = Resending w' \<longrightarrow> j = k')"
      if "pcs ?s k' = Resending w" for k' w
      using that u [of k' w] by (auto split: if_splits)
    show "ptp2 ?s = [] \<and> (\<forall>j v. pcs ?s j \<noteq> Resending v)" if "holder ?s"
      using ho [OF that] nh by simp
  qed
qed

lemma turn_inv_handoff:
  assumes inv: "turn_inv s" and sch: "sched_inv s" and h: "pcs s k = SendTurn"
  shows "turn_inv (goto k SendGate [HandOff k (k + 1)] (s\<lparr>ptp2 := ptp2 s @ [k + 1]\<rparr>))"
proof -
  note d = turn_invD [OF inv]
  let ?s = "goto k SendGate [HandOff k (k + 1)] (s\<lparr>ptp2 := ptp2 s @ [k + 1]\<rparr>)"
  have n: "turn ?s = Suc (turn s)" by (simp add: turn_def)
  have k: "k = turn s" using holding_is_turn [OF inv sch, of k] h by simp
  have "holder s" using h k by (simp add: holder_def)
  from d(9) [OF this] have e: "ptp2 s = []" and nr: "\<And>j v. pcs s j \<noteq> Resending v" by auto
  have w: "waiting (pcs s (Suc (turn s)))" using d(2) [of "Suc (turn s)"] by simp
  have "pcs ?s (Suc (turn s)) = pcs s (Suc (turn s))" using k by simp
  then have "\<not> holding (pcs ?s (Suc (turn s)))" using w by (simp add: holding_def)
  moreover have "Suc (turn s) \<noteq> 1" by (simp add: turn_def)
  ultimately have nh: "\<not> holder ?s" unfolding holder_def n by simp
  show ?thesis
  proof (rule turn_invI; (unfold n)?)
    show "released (pcs ?s j)" if "0 < j" "j < Suc (turn s)" for j
      using d(1) [of j] that k by (cases "j = k") auto
    show "waiting (pcs ?s j)" if "Suc (turn s) < j" for j
      using d(2) [of j] that k by simp
    show "\<not> polling (pcs ?s 1)" using d(3) by simp
    show "pcs ?s 1 \<noteq> GateWait" using d(4) by simp
    show "pcs ?s (Suc (turn s)) \<noteq> SendGate" using w k by auto
    show "w = Suc (turn s)" if "w \<in> set (ptp2 ?s)" for w using that e k by simp
    show "length (ptp2 ?s) \<le> 1" using e by simp
    show "w = Suc (turn s) \<and> ptp2 ?s = [] \<and> (\<forall>j w'. pcs ?s j = Resending w' \<longrightarrow> j = k')"
      if "pcs ?s k' = Resending w" for k' w
      using that nr [of k' w] by (auto split: if_splits)
    show "ptp2 ?s = [] \<and> (\<forall>j v. pcs ?s j \<noteq> Resending v)" if "holder ?s"
      using that nh by simp
  qed
qed

lemma die_point_simps [simp]:
  "die_point Polling" "die_point (Resending v)" "die_point (CapHtml c)" "die_point SendTurn"
  "die_point SendGate"
  by (simp_all add: die_point_def)

lemma turn_inv_work:
  assumes inv: "turn_inv s" and sch: "sched_inv s" and st: "process_img_step k oc s = Some s'"
  shows "turn_inv s'"
  using st
proof (cases rule: work_cases)
  case Derive
  then show ?thesis using turn_inv_derive [OF inv sch] by simp
next
  case Die
  then show ?thesis using turn_inv_exit [OF inv sch, where t = s] by simp
next
  case (Mine rest)
  then show ?thesis using turn_inv_mine [OF inv sch] by simp
next
  case (Other v rest)
  then show ?thesis using turn_inv_other [OF inv sch] by simp
next
  case (Resend v)
  then show ?thesis using turn_inv_resend [OF inv sch] by simp
next
  case Fork
  then show ?thesis using turn_inv_hold [OF inv sch, where k = k and t = "s\<lparr>html := (html s)(k := HPending)\<rparr>"] by simp
next
  case Thumb
  then show ?thesis using turn_inv_hold [OF inv sch, where k = k and t = s] by simp
next
  case GateErr
  then show ?thesis using turn_inv_hold [OF inv sch, where k = k and t = s] by simp
next
  case (GateRecv v rest)
  then show ?thesis using turn_inv_hold [OF inv sch, where k = k and t = "s\<lparr>ptp1 := rest\<rparr>"] by simp
next
  case Display
  then show ?thesis using turn_inv_hold [OF inv sch, where k = k and t = s] by simp
next
  case Closed
  then show ?thesis using turn_inv_hold [OF inv sch, where k = k and t = s] by simp
next
  case (Ask cs)
  then show ?thesis using turn_inv_hold [OF inv sch, where k = k and t = s] by simp
next
  case (Caption c)
  then show ?thesis using turn_inv_hold [OF inv sch, where k = k and t = s] by simp
next
  case (Cap c f)
  then show ?thesis using turn_inv_hold [OF inv sch, where k = k and t = "s\<lparr>index_html := f\<rparr>"] by simp
next
  case HandOff
  then show ?thesis using turn_inv_handoff [OF inv sch] by simp
next
  case Gate
  then show ?thesis using turn_inv_exit [OF inv sch, where t = "s\<lparr>ptp1 := ptp1 s @ [k + 1]\<rparr>" and r = 0] by simp
qed

lemma turn_inv_spawn:
  assumes inv: "turn_inv s" and h: "pcs s k = NotSpawned" and k: "0 < k"
    and s': "pcs s' = (pcs s)(k := Deriving)" "ptp2 s' = ptp2 s" "turn s' = turn s"
  shows "turn_inv s'"
proof -
  note d = turn_invD [OF inv]
  have ge: "turn s \<le> k" using d(1) [of k] k h by (cases "k < turn s") auto
  have ho: "holder s" if "holder s'"
  proof (rule holder_mono [OF s'(3) _ _ that])
    show "holding (pcs s j)" if "holding (pcs s' j)" for j
      using that by (cases "j = k") (simp_all add: s')
    show "pcs s 1 = NotSpawned \<or> pcs s 1 = Deriving"
      if "pcs s' 1 = NotSpawned \<or> pcs s' 1 = Deriving"
      using that h by (cases "k = 1") (simp_all add: s')
  qed
  show ?thesis
  proof (rule turn_invI; (unfold s'(3))?)
    show "released (pcs s' j)" if "0 < j" "j < turn s" for j
      using d(1) [of j] that ge by (simp add: s')
    show "waiting (pcs s' j)" if "turn s < j" for j
      using d(2) [of j] that by (simp add: s')
    show "\<not> polling (pcs s' 1)" using d(3) by (simp add: s')
    show "pcs s' 1 \<noteq> GateWait" using d(4) by (simp add: s')
    show "pcs s' (turn s) \<noteq> SendGate" using d(5) by (simp add: s')
    show "v = turn s" if "v \<in> set (ptp2 s')" for v using that d(6) by (simp add: s')
    show "length (ptp2 s') \<le> 1" using d(7) by (simp add: s')
    show "v = turn s \<and> ptp2 s' = [] \<and> (\<forall>j w. pcs s' j = Resending w \<longrightarrow> j = k')"
      if "pcs s' k' = Resending v" for k' v
      using that d(8) [of k' v] h by (auto simp: s' split: if_splits)
    show "ptp2 s' = [] \<and> (\<forall>j v. pcs s' j \<noteq> Resending v)" if "holder s'"
      using d(9) [OF ho [OF that]] by (auto simp: s')
  qed
qed

lemma turn_inv_sched:
  assumes inv: "turn_inv s" and sch: "sched_inv s" and st: "process_step oc s = Some s'"
  shows "turn_inv s'"
  using st
proof (cases rule: sched_cases)
  case PipeErr
  then show ?thesis by (intro turn_inv_cong [OF inv]) (simp_all add: turn_def)
next
  case Pipes
  then show ?thesis by (intro turn_inv_cong [OF inv]) (simp_all add: turn_def)
next
  case Sleep
  with inv show ?thesis by simp
next
  case Admit
  then show ?thesis by (intro turn_inv_cong [OF inv]) (simp_all add: turn_def)
next
  case Fork
  from sched_invD(5) [OF sch] Fork(1) have l: "loop_i s = nspawned s" by simp
  have un: "pcs s (Suc (loop_i s)) = NotSpawned"
    using sched_invD(3) [OF sch, of "Suc (nspawned s)"] l by simp
  show ?thesis
    by (rule turn_inv_spawn [OF inv un]) (simp_all add: Fork(2) turn_def)
next
  case (Reap r)
  then show ?thesis by (intro turn_inv_cong [OF inv]) (simp_all add: turn_def)
qed

lemma turn_inv_html:
  assumes inv: "turn_inv s" and st: "html_step k oc s = Some s'"
  shows "turn_inv s'"
  using st
proof (cases rule: html_cases)
  case (1 rc f as)
  then show ?thesis by (intro turn_inv_cong [OF inv]) (auto simp: turn_def)
qed

lemma turn_inv_entry: "turn_inv (process_entry its f)"
  by (rule turn_invI) (simp_all add: process_entry_def turn_def holder_def)

lemma inv1_step:
  assumes "inv1 s" and "step e s = Some s'"
  shows "inv1 s'"
  using assms unfolding inv1_def
  by (cases e) (auto intro: sched_inv_sched sched_inv_work sched_inv_html
      turn_inv_sched turn_inv_work turn_inv_html)

lemma inv1_run:
  assumes "inv1 s" and "run es s = Some s'"
  shows "inv1 s'"
  using assms
proof (induction es arbitrary: s)
  case Nil
  then show ?case by simp
next
  case (Cons e es)
  then show ?case by (auto split: option.splits dest: inv1_step)
qed

lemma inv1_entry: "inv1 (process_entry its f)"
  by (simp add: inv1_def sched_inv_entry turn_inv_entry)

lemma is_exited_simps [simp]:
  "\<not> is_exited NotSpawned" "\<not> is_exited Deriving" "\<not> is_exited Polling" "\<not> is_exited (Resending v)"
  "\<not> is_exited ForkHtml" "\<not> is_exited WaitThumb" "\<not> is_exited GateWait" "\<not> is_exited Displaying"
  "\<not> is_exited WaitDisplay" "\<not> is_exited Asking" "\<not> is_exited Captioning" "\<not> is_exited (CapHtml c)"
  "\<not> is_exited SendTurn" "\<not> is_exited SendGate" "is_exited (Exited r)"
  by (simp_all add: is_exited_def)

lemma past_gate_simps [simp]:
  "\<not> past_gate NotSpawned" "\<not> past_gate Deriving" "\<not> past_gate Polling" "\<not> past_gate (Resending v)"
  "\<not> past_gate ForkHtml" "\<not> past_gate WaitThumb" "\<not> past_gate GateWait" "past_gate Displaying"
  "past_gate WaitDisplay" "past_gate Asking" "past_gate Captioning" "past_gate (CapHtml c)"
  "past_gate SendTurn" "past_gate SendGate" "\<not> past_gate (Exited r)"
  by (simp_all add: past_gate_def)

lemma is_gate_simps [simp]:
  "\<not> is_gate (Spawn k)" "\<not> is_gate (Call k c)" "\<not> is_gate (TurnRecv k v)"
  "\<not> is_gate (Resent k v)" "is_gate (HandOff k v)" "\<not> is_gate (LinkFork k)"
  "\<not> is_gate (LinkWrite k)" "\<not> is_gate (CapWrite k)" "is_gate (GateRecv k v)"
  "\<not> is_gate (GateErr k)" "is_gate (GateSent k v)" "\<not> is_gate (Exit k r)"
  by (simp_all add: is_gate_def)

lemma gate_invD:
  assumes "gate_inv s"
  shows "0 < k \<Longrightarrow> Suc k < turn s \<Longrightarrow> is_exited (pcs s k)"
    and "ptp1 s = (if GateSent (turn s - 1) (turn s) \<in> set (trace s) \<and>
                  GateRecv (turn s) (turn s) \<notin> set (trace s) then [turn s] else [])"
    and "GateSent j v \<in> set (trace s) \<Longrightarrow> v = Suc j \<and> j < turn s \<and> is_exited (pcs s j)"
    and "GateRecv k v \<in> set (trace s) \<Longrightarrow> v = k \<and> k \<le> turn s \<and> GateSent (k - 1) k \<in> set (trace s)"
    and "1 < k \<Longrightarrow> past_gate (pcs s k) \<Longrightarrow> GateRecv k k \<in> set (trace s)"
  using assms unfolding gate_inv_def by blast+

lemma gate_invI:
  assumes "\<And>k. 0 < k \<Longrightarrow> Suc k < turn s \<Longrightarrow> is_exited (pcs s k)"
    and "ptp1 s = (if GateSent (turn s - 1) (turn s) \<in> set (trace s) \<and>
                  GateRecv (turn s) (turn s) \<notin> set (trace s) then [turn s] else [])"
    and "\<And>j v. GateSent j v \<in> set (trace s) \<Longrightarrow> v = Suc j \<and> j < turn s \<and> is_exited (pcs s j)"
    and "\<And>k v. GateRecv k v \<in> set (trace s) \<Longrightarrow> v = k \<and> k \<le> turn s \<and> GateSent (k - 1) k \<in> set (trace s)"
    and "\<And>k. 1 < k \<Longrightarrow> past_gate (pcs s k) \<Longrightarrow> GateRecv k k \<in> set (trace s)"
  shows "gate_inv s"
  using assms unfolding gate_inv_def by blast

lemma gate_mem:
  assumes "\<forall>a\<in>set as. \<not> is_gate a"
  shows "GateSent j v \<in> set (tr @ as) \<longleftrightarrow> GateSent j v \<in> set tr"
    and "GateRecv j v \<in> set (tr @ as) \<longleftrightarrow> GateRecv j v \<in> set tr"
    and "filter is_handoff as = []"
proof -
  show "GateSent j v \<in> set (tr @ as) \<longleftrightarrow> GateSent j v \<in> set tr"
    using assms by auto
  show "GateRecv j v \<in> set (tr @ as) \<longleftrightarrow> GateRecv j v \<in> set tr"
    using assms by auto
  have "\<not> is_handoff a" if "a \<in> set as" for a
    using assms that by (cases a) auto
  then show "filter is_handoff as = []" by simp
qed

text \<open>steps that neither touch the gate pipe nor hand the turn on\<close>

lemma gate_inv_other:
  assumes inv: "gate_inv s"
    and tr: "trace s' = trace s @ as" "\<forall>a\<in>set as. \<not> is_gate a"
    and p1: "ptp1 s' = ptp1 s"
    and ex: "\<And>j. is_exited (pcs s j) \<Longrightarrow> is_exited (pcs s' j)"
    and pg: "\<And>j. 1 < j \<Longrightarrow> past_gate (pcs s' j) \<Longrightarrow> past_gate (pcs s j)"
  shows "gate_inv s'"
proof -
  note d = gate_invD [OF inv]
  note m = gate_mem(1,2) [OF tr(2), where tr = "trace s"] gate_mem(3) [OF tr(2)]
  have n: "turn s' = turn s" by (simp add: turn_def tr(1) m(3))
  show ?thesis
  proof (rule gate_invI; (unfold n tr(1) m(1,2) p1)?)
    show "is_exited (pcs s' k)" if "0 < k" "Suc k < turn s" for k
      using d(1) [OF that] by (rule ex)
    show "ptp1 s = (if GateSent (turn s - 1) (turn s) \<in> set (trace s) \<and>
                  GateRecv (turn s) (turn s) \<notin> set (trace s) then [turn s] else [])"
      by (rule d(2))
    show "v = Suc j \<and> j < turn s \<and> is_exited (pcs s' j)" if "GateSent j v \<in> set (trace s)" for j v
      using d(3) [OF that] ex by blast
    show "v = k \<and> k \<le> turn s \<and> GateSent (k - 1) k \<in> set (trace s)"
      if "GateRecv k v \<in> set (trace s)" for k v
      using d(4) [OF that] .
    show "GateRecv k k \<in> set (trace s)" if "1 < k" "past_gate (pcs s' k)" for k
      using d(5) [OF that(1) pg [OF that]] .
  qed
qed

lemma gate_inv_goto:
  assumes "gate_inv s" and "\<forall>a\<in>set as. \<not> is_gate a"
    and "ptp1 t = ptp1 s" "pcs t = pcs s" "trace t = trace s"
    and "is_exited (pcs s k) \<longrightarrow> is_exited p"
    and "1 < k \<and> past_gate p \<longrightarrow> past_gate (pcs s k)"
  shows "gate_inv (goto k p as t)"
proof (rule gate_inv_other [OF assms(1) _ assms(2)])
  show "trace (goto k p as t) = trace s @ as" by (simp add: assms)
  show "ptp1 (goto k p as t) = ptp1 s" by (simp add: assms)
  show "is_exited (pcs (goto k p as t) j)" if "is_exited (pcs s j)" for j
    using that assms(6) by (cases "j = k") (simp_all add: assms(4))
  show "past_gate (pcs s j)" if "1 < j" "past_gate (pcs (goto k p as t) j)" for j
    using that assms(7) by (cases "j = k") (simp_all add: assms(4))
qed

lemma turn_pos [simp]: "0 < turn s"
  by (simp add: turn_def)

lemma gate_inv_recv:
  assumes inv: "gate_inv s" and ti: "turn_inv s" and sch: "sched_inv s"
    and h: "pcs s k = GateWait" and q: "ptp1 s = v # rest"
  shows "gate_inv (goto k Displaying [GateRecv k v] (s\<lparr>ptp1 := rest\<rparr>))"
proof -
  note d = gate_invD [OF inv]
  let ?s = "goto k Displaying [GateRecv k v] (s\<lparr>ptp1 := rest\<rparr>)"
  have n: "turn ?s = turn s" by (simp add: turn_def)
  have k: "k = turn s" using holding_is_turn [OF ti sch, of k] h by simp
  from d(2) q have g: "GateSent (turn s - 1) (turn s) \<in> set (trace s)"
    and v: "v = turn s" and r: "rest = []"
    by (auto split: if_splits)
  show ?thesis
  proof (rule gate_invI; (unfold n)?)
    show "is_exited (pcs ?s j)" if "0 < j" "Suc j < turn s" for j
      using d(1) [OF that] that k by simp
    show "ptp1 ?s = (if GateSent (turn s - 1) (turn s) \<in> set (trace ?s) \<and>
                  GateRecv (turn s) (turn s) \<notin> set (trace ?s) then [turn s] else [])"
      using r k v by simp
    show "w = Suc j \<and> j < turn s \<and> is_exited (pcs ?s j)" if "GateSent j w \<in> set (trace ?s)" for j w
    proof -
      from that have "GateSent j w \<in> set (trace s)" by simp
      from d(3) [OF this] k show ?thesis by simp
    qed
    show "w = j \<and> j \<le> turn s \<and> GateSent (j - 1) j \<in> set (trace ?s)"
      if "GateRecv j w \<in> set (trace ?s)" for j w
    proof (cases "GateRecv j w \<in> set (trace s)")
      case True
      from d(4) [OF this] show ?thesis by simp
    next
      case False
      with that have "j = k" "w = v" by simp_all
      with k v g show ?thesis by simp
    qed
    show "GateRecv j j \<in> set (trace ?s)" if "1 < j" "past_gate (pcs ?s j)" for j
    proof (cases "j = k")
      case True
      with k v show ?thesis by simp
    next
      case False
      with that have "past_gate (pcs s j)" by simp
      from d(5) [OF that(1) this] show ?thesis by simp
    qed
  qed
qed

lemma gate_inv_handoff:
  assumes inv: "gate_inv s" and ti: "turn_inv s" and sch: "sched_inv s"
    and h: "pcs s k = SendTurn"
  shows "gate_inv (goto k SendGate [HandOff k (k + 1)] (s\<lparr>ptp2 := ptp2 s @ [k + 1]\<rparr>))"
proof -
  note d = gate_invD [OF inv]
  let ?s = "goto k SendGate [HandOff k (k + 1)] (s\<lparr>ptp2 := ptp2 s @ [k + 1]\<rparr>)"
  have n: "turn ?s = Suc (turn s)" by (simp add: turn_def)
  have k: "k = turn s" using holding_is_turn [OF ti sch, of k] h by simp
  have z: "pcs s 0 = NotSpawned" using sched_invD(3) [OF sch, of 0] by simp
  have ns: "GateSent (turn s) w \<notin> set (trace s)" for w
    using d(3) [of "turn s" w] by auto
  have rc: "GateRecv k k \<in> set (trace s)" if "1 < k"
    using d(5) [OF that] h by simp
  have e: "ptp1 s = []"
  proof (cases "1 < k")
    case True
    from rc [OF True] k d(2) show ?thesis by simp
  next
    case False
    with k have "turn s = 1" by (simp add: turn_def)
    moreover have "GateSent 0 1 \<notin> set (trace s)" using d(3) [of 0 1] z by auto
    ultimately show ?thesis using d(2) by simp
  qed
  show ?thesis
  proof (rule gate_invI; (unfold n)?)
    show "is_exited (pcs ?s j)" if "0 < j" "Suc j < Suc (turn s)" for j
    proof (cases "Suc j < turn s")
      case True
      from d(1) [OF that(1) True] True k show ?thesis by simp
    next
      case False
      with that have j: "Suc j = turn s" by simp
      with k that(1) have "1 < k" by simp
      from d(4) [OF rc [OF this]] have "GateSent (k - 1) k \<in> set (trace s)" by simp
      from d(3) [OF this] have "is_exited (pcs s (k - 1))" by simp
      moreover have "k - 1 = j" using j k by simp
      moreover have "j \<noteq> k" using j k by simp
      ultimately show ?thesis by simp
    qed
    show "ptp1 ?s = (if GateSent (Suc (turn s) - 1) (Suc (turn s)) \<in> set (trace ?s) \<and>
                  GateRecv (Suc (turn s)) (Suc (turn s)) \<notin> set (trace ?s) then [Suc (turn s)] else [])"
      using e ns by simp
    show "w = Suc j \<and> j < Suc (turn s) \<and> is_exited (pcs ?s j)" if "GateSent j w \<in> set (trace ?s)" for j w
    proof -
      from that have "GateSent j w \<in> set (trace s)" by simp
      from d(3) [OF this] k show ?thesis by auto
    qed
    show "w = j \<and> j \<le> Suc (turn s) \<and> GateSent (j - 1) j \<in> set (trace ?s)"
      if "GateRecv j w \<in> set (trace ?s)" for j w
    proof -
      from that have "GateRecv j w \<in> set (trace s)" by simp
      from d(4) [OF this] show ?thesis by simp
    qed
    show "GateRecv j j \<in> set (trace ?s)" if "1 < j" "past_gate (pcs ?s j)" for j
    proof (cases "j = k")
      case True
      with rc that(1) show ?thesis by simp
    next
      case False
      with that have "past_gate (pcs s j)" by simp
      from d(5) [OF that(1) this] show ?thesis by simp
    qed
  qed
qed

lemma gate_inv_send:
  assumes inv: "gate_inv s" and ti: "turn_inv s" and sch: "sched_inv s"
    and h: "pcs s k = SendGate"
  shows "gate_inv (goto k (Exited 0) [GateSent k (k + 1), Exit k 0] (s\<lparr>ptp1 := ptp1 s @ [k + 1]\<rparr>))"
proof -
  note d = gate_invD [OF inv]
  note t = turn_invD [OF ti]
  let ?s = "goto k (Exited 0) [GateSent k (k + 1), Exit k 0] (s\<lparr>ptp1 := ptp1 s @ [k + 1]\<rparr>)"
  have n: "turn ?s = turn s" by (simp add: turn_def)
  have k0: "0 < k" using spawned_pos(1) [OF sch, of k] h by simp
  have "\<not> turn s < k" using t(2) [of k] h by auto
  moreover have "k \<noteq> turn s" using t(5) h by auto
  ultimately have lt: "k < turn s" by simp
  have "\<not> Suc k < turn s" using d(1) [OF k0] h by auto
  with lt have k: "turn s = Suc k" by simp
  have ns: "GateSent k w \<notin> set (trace s)" for w
    using d(3) [of k w] h by auto
  have nr: "GateRecv (Suc k) w \<notin> set (trace s)" for w
    using d(4) [of "Suc k" w] ns by auto
  have e: "ptp1 s = []" using d(2) k ns by simp
  show ?thesis
  proof (rule gate_invI; (unfold n)?)
    show "is_exited (pcs ?s j)" if "0 < j" "Suc j < turn s" for j
      using d(1) [OF that] by simp
    show "ptp1 ?s = (if GateSent (turn s - 1) (turn s) \<in> set (trace ?s) \<and>
                  GateRecv (turn s) (turn s) \<notin> set (trace ?s) then [turn s] else [])"
      using e k nr by simp
    show "w = Suc j \<and> j < turn s \<and> is_exited (pcs ?s j)" if "GateSent j w \<in> set (trace ?s)" for j w
    proof (cases "GateSent j w \<in> set (trace s)")
      case True
      from d(3) [OF this] show ?thesis by simp
    next
      case False
      with that have "j = k" "w = Suc k" by simp_all
      with lt show ?thesis by simp
    qed
    show "w = j \<and> j \<le> turn s \<and> GateSent (j - 1) j \<in> set (trace ?s)"
      if "GateRecv j w \<in> set (trace ?s)" for j w
    proof -
      from that have "GateRecv j w \<in> set (trace s)" by simp
      from d(4) [OF this] show ?thesis by simp
    qed
    show "GateRecv j j \<in> set (trace ?s)" if "1 < j" "past_gate (pcs ?s j)" for j
    proof -
      from that have "j \<noteq> k" by auto
      with that have "past_gate (pcs s j)" by simp
      from d(5) [OF that(1) this] show ?thesis by simp
    qed
  qed
qed

lemma gate_inv_work:
  assumes inv: "gate_inv s" and ti: "turn_inv s" and sch: "sched_inv s"
    and st: "process_img_step k oc s = Some s'" and ne: "no_gate_err (trace s')"
  shows "gate_inv s'"
  using st
proof (cases rule: work_cases)
  case Derive
  then show ?thesis using gate_inv_goto [OF inv, where t = s and k = k] by simp
next
  case Die
  then show ?thesis using gate_inv_goto [OF inv, where t = s and k = k] by simp
next
  case (Mine rest)
  then show ?thesis using gate_inv_goto [OF inv, where t = "s\<lparr>ptp2 := rest\<rparr>" and k = k] by simp
next
  case (Other v rest)
  then show ?thesis using gate_inv_goto [OF inv, where t = "s\<lparr>ptp2 := rest\<rparr>" and k = k] by simp
next
  case (Resend v)
  then show ?thesis using gate_inv_goto [OF inv, where t = "s\<lparr>ptp2 := ptp2 s @ [v]\<rparr>" and k = k] by simp
next
  case Fork
  then show ?thesis
    using gate_inv_goto [OF inv, where t = "s\<lparr>html := (html s)(k := HPending)\<rparr>" and k = k] by simp
next
  case Thumb
  then show ?thesis using gate_inv_goto [OF inv, where t = s and k = k] by simp
next
  case GateErr
  then have "GateErr k \<in> set (trace s')" by simp
  with ne show ?thesis unfolding no_gate_err_def by blast
next
  case (GateRecv v rest)
  then show ?thesis using gate_inv_recv [OF inv ti sch] by simp
next
  case Display
  then show ?thesis using gate_inv_goto [OF inv, where t = s and k = k] by simp
next
  case Closed
  then show ?thesis using gate_inv_goto [OF inv, where t = s and k = k] by simp
next
  case (Ask cs)
  then show ?thesis using gate_inv_goto [OF inv, where t = s and k = k] by simp
next
  case (Caption c)
  then show ?thesis using gate_inv_goto [OF inv, where t = s and k = k] by simp
next
  case (Cap c f)
  then show ?thesis using gate_inv_goto [OF inv, where t = "s\<lparr>index_html := f\<rparr>" and k = k] by simp
next
  case HandOff
  then show ?thesis using gate_inv_handoff [OF inv ti sch] by simp
next
  case Gate
  then show ?thesis using gate_inv_send [OF inv ti sch] by simp
qed

lemma gate_inv_sched:
  assumes inv: "gate_inv s" and sch: "sched_inv s" and st: "process_step oc s = Some s'"
  shows "gate_inv s'"
  using st
proof (cases rule: sched_cases)
  case Sleep
  with inv show ?thesis by simp
next
  case Fork
  from sched_invD(5) [OF sch] Fork(1) have l: "loop_i s = nspawned s" by simp
  have un: "pcs s (Suc (loop_i s)) = NotSpawned"
    using sched_invD(3) [OF sch, of "Suc (nspawned s)"] l by simp
  show ?thesis
  proof (rule gate_inv_other [OF inv, where as = "[Spawn (Suc (loop_i s))]"])
    show "is_exited (pcs s' j)" if "is_exited (pcs s j)" for j
      using that Fork(2) un by (cases "j = Suc (loop_i s)") simp_all
    show "past_gate (pcs s j)" if "1 < j" "past_gate (pcs s' j)" for j
      using that Fork(2) by (cases "j = Suc (loop_i s)") simp_all
  qed (simp_all add: Fork(2))
qed (rule gate_inv_other [OF inv, where as = "[]"]; simp)+

lemma gate_inv_html:
  assumes inv: "gate_inv s" and st: "html_step k oc s = Some s'"
  shows "gate_inv s'"
  using st
proof (cases rule: html_cases)
  case (1 rc f as)
  show ?thesis
    by (rule gate_inv_other [OF inv, where as = as]) (use 1 in auto)
qed

lemma gate_inv_entry: "gate_inv (process_entry its f)"
  by (rule gate_invI) (simp_all add: process_entry_def turn_def)

lemma trace_grows:
  assumes "step e s = Some s'"
  shows "\<exists>as. trace s' = trace s @ as"
proof (cases e)
  case (Sched oc)
  with assms have "process_step oc s = Some s'" by simp
  then show ?thesis by (cases rule: sched_cases) simp_all
next
  case (Work k oc)
  with assms have "process_img_step k oc s = Some s'" by simp
  then show ?thesis by (cases rule: work_cases) simp_all
next
  case (Html k oc)
  with assms have "html_step k oc s = Some s'" by simp
  then show ?thesis by (cases rule: html_cases) simp_all
qed

lemma no_gate_err_step:
  assumes "step e s = Some s'" and "no_gate_err (trace s')"
  shows "no_gate_err (trace s)"
  using trace_grows [OF assms(1)] assms(2) by (auto simp: no_gate_err_def)

lemma inv2_step:
  assumes "inv2 s" and "step e s = Some s'"
  shows "inv2 s'"
proof -
  from assms(1) have i: "sched_inv s" "turn_inv s" by (simp_all add: inv2_def)
  have "inv1 s'" using inv1_step [OF _ assms(2)] i by (simp add: inv1_def)
  moreover have "gate_inv s'" if "no_gate_err (trace s')"
  proof -
    from no_gate_err_step [OF assms(2) that] assms(1) have g: "gate_inv s" by (simp add: inv2_def)
    show ?thesis
    proof (cases e)
      case (Sched oc)
      with assms(2) g i show ?thesis by (auto intro: gate_inv_sched)
    next
      case (Work k oc)
      with assms(2) g i that show ?thesis by (auto intro: gate_inv_work)
    next
      case (Html k oc)
      with assms(2) g show ?thesis by (auto intro: gate_inv_html)
    qed
  qed
  ultimately show ?thesis by (simp add: inv2_def inv1_def)
qed

lemma inv2_run:
  assumes "inv2 s" and "run es s = Some s'"
  shows "inv2 s'"
  using assms
proof (induction es arbitrary: s)
  case Nil
  then show ?case by simp
next
  case (Cons e es)
  then show ?case by (auto split: option.splits dest: inv2_step)
qed

lemma inv2_entry: "inv2 (process_entry its f)"
  by (simp add: inv2_def sched_inv_entry turn_inv_entry gate_inv_entry)

lemma past_fork_simps [simp]:
  "\<not> past_fork NotSpawned" "\<not> past_fork Deriving" "\<not> past_fork Polling" "\<not> past_fork (Resending v)"
  "\<not> past_fork ForkHtml" "past_fork WaitThumb" "past_fork GateWait" "past_fork Displaying"
  "past_fork WaitDisplay" "past_fork Asking" "past_fork Captioning" "past_fork (CapHtml c)"
  "past_fork SendTurn" "past_fork SendGate" "\<not> past_fork (Exited r)"
  by (simp_all add: past_fork_def)

lemma order_invD:
  assumes "order_inv s"
  shows "past_fork (pcs s k) \<Longrightarrow> LinkFork k \<in> set (trace s)"
    and "pcs s k = SendTurn \<or> pcs s k = SendGate \<Longrightarrow> CapWrite k \<in> set (trace s)"
    and "pcs s k = SendGate \<Longrightarrow> HandOff k (k + 1) \<in> set (trace s)"
  using assms unfolding order_inv_def by blast+

lemma order_inv_goto:
  assumes inv: "order_inv s" and same: "pcs t = pcs s" "trace t = trace s"
    and "past_fork p \<longrightarrow> past_fork (pcs s k) \<or> LinkFork k \<in> set as"
    and "p = SendTurn \<or> p = SendGate \<longrightarrow> pcs s k = SendTurn \<or> pcs s k = SendGate \<or> CapWrite k \<in> set as"
    and "p = SendGate \<longrightarrow> pcs s k = SendGate \<or> HandOff k (k + 1) \<in> set as"
  shows "order_inv (goto k p as t)"
  unfolding order_inv_def
proof (intro conjI allI impI)
  fix j
  show "LinkFork j \<in> set (trace (goto k p as t))" if "past_fork (pcs (goto k p as t) j)"
    using that assms(4) order_invD(1) [OF inv, of j] by (cases "j = k") (auto simp: same)
  show "CapWrite j \<in> set (trace (goto k p as t))"
    if "pcs (goto k p as t) j = SendTurn \<or> pcs (goto k p as t) j = SendGate"
    using that assms(5) order_invD(2) [OF inv, of j] by (cases "j = k") (auto simp: same)
  show "HandOff j (j + 1) \<in> set (trace (goto k p as t))" if "pcs (goto k p as t) j = SendGate"
    using that assms(6) order_invD(3) [OF inv, of j] by (cases "j = k") (auto simp: same)
qed

lemma order_inv_work:
  assumes inv: "order_inv s" and st: "process_img_step k oc s = Some s'"
  shows "order_inv s'"
  using st
proof (cases rule: work_cases)
  case Derive
  then show ?thesis using order_inv_goto [OF inv, where t = s and k = k] by simp
next
  case Die
  then show ?thesis using order_inv_goto [OF inv, where t = s and k = k] by simp
next
  case (Mine rest)
  then show ?thesis using order_inv_goto [OF inv, where t = "s\<lparr>ptp2 := rest\<rparr>" and k = k] by simp
next
  case (Other v rest)
  then show ?thesis using order_inv_goto [OF inv, where t = "s\<lparr>ptp2 := rest\<rparr>" and k = k] by simp
next
  case (Resend v)
  then show ?thesis using order_inv_goto [OF inv, where t = "s\<lparr>ptp2 := ptp2 s @ [v]\<rparr>" and k = k] by simp
next
  case Fork
  then show ?thesis
    using order_inv_goto [OF inv, where t = "s\<lparr>html := (html s)(k := HPending)\<rparr>" and k = k] by simp
next
  case Thumb
  then show ?thesis using order_inv_goto [OF inv, where t = s and k = k] by simp
next
  case GateErr
  then show ?thesis using order_inv_goto [OF inv, where t = s and k = k] by simp
next
  case (GateRecv v rest)
  then show ?thesis using order_inv_goto [OF inv, where t = "s\<lparr>ptp1 := rest\<rparr>" and k = k] by simp
next
  case Display
  then show ?thesis using order_inv_goto [OF inv, where t = s and k = k] by simp
next
  case Closed
  then show ?thesis using order_inv_goto [OF inv, where t = s and k = k] by simp
next
  case (Ask cs)
  then show ?thesis using order_inv_goto [OF inv, where t = s and k = k] by simp
next
  case (Caption c)
  then show ?thesis using order_inv_goto [OF inv, where t = s and k = k] by simp
next
  case (Cap c f)
  then show ?thesis using order_inv_goto [OF inv, where t = "s\<lparr>index_html := f\<rparr>" and k = k] by simp
next
  case HandOff
  then show ?thesis
    using order_inv_goto [OF inv, where t = "s\<lparr>ptp2 := ptp2 s @ [k + 1]\<rparr>" and k = k] by simp
next
  case Gate
  then show ?thesis
    using order_inv_goto [OF inv, where t = "s\<lparr>ptp1 := ptp1 s @ [k + 1]\<rparr>" and k = k] by simp
qed

lemma order_inv_sched:
  assumes inv: "order_inv s" and st: "process_step oc s = Some s'"
  shows "order_inv s'"
  using st
proof (cases rule: sched_cases)
  case Fork
  show ?thesis unfolding order_inv_def
  proof (intro conjI allI impI)
    fix j
    show "LinkFork j \<in> set (trace s')" if "past_fork (pcs s' j)"
      using that order_invD(1) [OF inv, of j] by (cases "j = Suc (loop_i s)") (simp_all add: Fork(2))
    show "CapWrite j \<in> set (trace s')" if "pcs s' j = SendTurn \<or> pcs s' j = SendGate"
      using that order_invD(2) [OF inv, of j] by (cases "j = Suc (loop_i s)") (simp_all add: Fork(2))
    show "HandOff j (j + 1) \<in> set (trace s')" if "pcs s' j = SendGate"
      using that order_invD(3) [OF inv, of j] by (cases "j = Suc (loop_i s)") (simp_all add: Fork(2))
  qed
qed (use inv in \<open>simp_all add: order_inv_def\<close>)

lemma order_inv_html:
  assumes inv: "order_inv s" and st: "html_step k oc s = Some s'"
  shows "order_inv s'"
  using st
proof (cases rule: html_cases)
  case (1 rc f as)
  with inv show ?thesis by (auto simp: order_inv_def)
qed

lemma order_inv_entry: "order_inv (process_entry its f)"
  by (simp add: order_inv_def process_entry_def)

lemma occurs_append:
  assumes old: "\<And>xs ys. tr = xs @ b # ys \<Longrightarrow> C xs \<Longrightarrow> Q xs"
    and C: "\<And>xs us. C (xs @ us) \<Longrightarrow> C xs"
    and Q: "\<And>xs us. Q xs \<Longrightarrow> Q (xs @ us)"
    and new: "b \<in> set as \<Longrightarrow> C tr \<Longrightarrow> Q tr"
    and eq: "tr @ as = xs @ b # ys" and c: "C xs"
  shows "Q xs"
proof -
  from eq obtain us where "tr = xs @ us \<and> us @ as = b # ys \<or> tr @ us = xs \<and> as = us @ b # ys"
    by (auto simp: append_eq_append_conv2)
  then show ?thesis
  proof
    assume a: "tr = xs @ us \<and> us @ as = b # ys"
    show ?thesis
    proof (cases us)
      case Nil
      with a have "b \<in> set as" "tr = xs" by auto
      with new c show ?thesis by simp
    next
      case (Cons u us')
      with a have "tr = xs @ b # us'" by simp
      from old [OF this c] show ?thesis .
    qed
  next
    assume a: "tr @ us = xs \<and> as = us @ b # ys"
    then have "b \<in> set as" by simp
    moreover from a c C [of tr us] have "C tr" by simp
    ultimately have "Q tr" by (rule new)
    from Q [OF this, of us] a show ?thesis by simp
  qed
qed

lemma news_ok_plain:
  assumes "\<forall>a\<in>set as. case a of HandOff k v \<Rightarrow> False | GateSent k v \<Rightarrow> False
      | Call k c \<Rightarrow> (case c of Display th \<Rightarrow> False | _ \<Rightarrow> True)
      | TurnRecv k v \<Rightarrow> False | GateRecv k v \<Rightarrow> False | GateErr k \<Rightarrow> False | _ \<Rightarrow> True"
  shows "news_ok s as"
  unfolding news_ok_def using assms by (intro conjI allI impI) force+

lemma plain_news:
  assumes "s' = goto k p as t" and "trace t = trace s" and "items t = items s"
    and "\<forall>a\<in>set as. case a of HandOff k v \<Rightarrow> False | GateSent k v \<Rightarrow> False
      | Call k c \<Rightarrow> (case c of Display th \<Rightarrow> False | _ \<Rightarrow> True)
      | TurnRecv k v \<Rightarrow> False | GateRecv k v \<Rightarrow> False | GateErr k \<Rightarrow> False | _ \<Rightarrow> True"
  shows "\<exists>as. trace s' = trace s @ as \<and> items s' = items s \<and> news_ok s as"
  using news_ok_plain [OF assms(4), of s] assms(1,2,3) by simp

lemma plain_trace_news:
  assumes "trace s' = trace s @ as" and "items s' = items s"
    and "\<forall>a\<in>set as. case a of HandOff k v \<Rightarrow> False | GateSent k v \<Rightarrow> False
      | Call k c \<Rightarrow> (case c of Display th \<Rightarrow> False | _ \<Rightarrow> True)
      | TurnRecv k v \<Rightarrow> False | GateRecv k v \<Rightarrow> False | GateErr k \<Rightarrow> False | _ \<Rightarrow> True"
  shows "\<exists>as. trace s' = trace s @ as \<and> items s' = items s \<and> news_ok s as"
  using news_ok_plain [OF assms(3), of s] assms(1,2) by blast

lemma work_news:
  assumes i2: "inv2 s" and oi: "order_inv s" and st: "process_img_step k oc s = Some s'"
  shows "\<exists>as. trace s' = trace s @ as \<and> items s' = items s \<and> news_ok s as"
proof -
  from i2 have sch: "sched_inv s" and ti: "turn_inv s"
    and gi: "no_gate_err (trace s) \<Longrightarrow> gate_inv s" by (simp_all add: inv2_def)
  note t = turn_invD [OF ti]
  from st show ?thesis
  proof (cases rule: work_cases)
    case Derive
    show ?thesis by (rule plain_news [OF Derive(2)]) simp_all
  next
    case Die
    show ?thesis by (rule plain_news [OF Die(2)]) simp_all
  next
    case (Mine rest)
    have "k \<noteq> 1" using t(3) Mine(1) by auto
    moreover have "k \<le> length (items s)" using spawned_pos(2) [OF sch, of k] Mine(1) by simp
    ultimately have "news_ok s [TurnRecv k k]" by (simp add: news_ok_def)
    with Mine show ?thesis by simp
  next
    case (Other v rest)
    have "k \<noteq> 1" using t(3) Other(1) by auto
    moreover have "k \<le> length (items s)" using spawned_pos(2) [OF sch, of k] Other(1) by simp
    moreover have "v = turn s" using t(6) [of v] Other(2) by simp
    moreover have "turn s \<le> k" using not_released_ge_turn [OF ti sch, of k] Other(1) by simp
    ultimately have "news_ok s [TurnRecv k v]" by (simp add: news_ok_def)
    with Other show ?thesis by simp
  next
    case (Resend v)
    show ?thesis by (rule plain_news [OF Resend(2)]) simp_all
  next
    case Fork
    show ?thesis by (rule plain_news [OF Fork(2)]) simp_all
  next
    case Thumb
    show ?thesis by (rule plain_news [OF Thumb(2)]) simp_all
  next
    case GateErr
    have "k \<noteq> 1" using t(4) GateErr(1) by auto
    then have "news_ok s [GateErr k]" by (simp add: news_ok_def)
    with GateErr show ?thesis by simp
  next
    case (GateRecv v rest)
    have "k \<noteq> 1" using t(4) GateRecv(1) by auto
    then have "news_ok s [GateRecv k v]" by (simp add: news_ok_def)
    with GateRecv show ?thesis by simp
  next
    case Display
    have "GateSent (k - 1) k \<in> set (trace s) \<and> GateRecv k k \<in> set (trace s)"
      if "1 < k" "no_gate_err (trace s)"
    proof -
      note g = gate_invD [OF gi [OF that(2)]]
      have r: "GateRecv k k \<in> set (trace s)" using g(5) [OF that(1)] Display(1) by simp
      from g(4) [OF r] r show ?thesis by simp
    qed
    then have "news_ok s [Call k (Display (thumb_name (items s ! (k - 1))))]"
      by (simp add: news_ok_def)
    with Display show ?thesis by simp
  next
    case Closed
    show ?thesis by (rule plain_news [OF Closed(2)]) simp_all
  next
    case (Ask cs)
    have "news_ok s (map (Call k) cs)"
      using Ask(3) by (intro news_ok_plain) (auto simp: is_rotate_def split: call.splits)
    with Ask show ?thesis by simp
  next
    case (Caption c)
    show ?thesis by (rule plain_news [OF Caption(2)]) simp_all
  next
    case (Cap c f)
    show ?thesis by (rule plain_news [OF Cap(2)]) simp_all
  next
    case HandOff
    have "news_ok s [HandOff k (k + 1)]"
      using order_invD(1,2) [OF oi, of k] HandOff(1) by (simp add: news_ok_def)
    with HandOff show ?thesis by simp
  next
    case Gate
    have "news_ok s [GateSent k (k + 1), Exit k 0]"
      using order_invD [OF oi, of k] Gate(1) by (simp add: news_ok_def)
    with Gate show ?thesis by simp
  qed
qed

lemma step_news:
  assumes i2: "inv2 s" and oi: "order_inv s" and st: "step e s = Some s'"
  shows "\<exists>as. trace s' = trace s @ as \<and> items s' = items s \<and> news_ok s as"
proof (cases e)
  case (Sched oc)
  with st have "process_step oc s = Some s'" by simp
  then show ?thesis
  proof (cases rule: sched_cases)
    case Fork
    show ?thesis
      by (rule plain_trace_news [where as = "[Spawn (Suc (loop_i s))]"]) (simp_all add: Fork(2))
  qed (rule plain_trace_news [where as = "[]"]; simp)+
next
  case (Work k oc)
  with st work_news [OF i2 oi] show ?thesis by simp
next
  case (Html k oc)
  with st have "html_step k oc s = Some s'" by simp
  then show ?thesis
  proof (cases rule: html_cases)
    case (1 rc f as)
    then have "news_ok s as" by (intro news_ok_plain) auto
    with 1 show ?thesis by simp
  qed
qed

lemma no_gate_err_prefix: "no_gate_err (xs @ us) \<Longrightarrow> no_gate_err xs"
  by (simp add: no_gate_err_def)

lemma occurs_append_plain:
  assumes old: "\<And>xs ys. tr = xs @ b # ys \<Longrightarrow> Q xs"
    and Q: "\<And>xs us. Q xs \<Longrightarrow> Q (xs @ us)"
    and new: "b \<in> set as \<Longrightarrow> Q tr"
    and eq: "tr @ as = xs @ b # ys"
  shows "Q xs"
  by (rule occurs_append [where C = "\<lambda>xs. True" and Q = Q, OF _ _ _ _ eq]) (use old Q new in auto)

lemma trace_inv_append:
  assumes inv: "trace_inv s" and tr: "trace s' = trace s @ as" and it: "items s' = items s"
    and nw: "news_ok s as"
  shows "trace_inv s'"
proof -
  have 1: "v = k + 1 \<and> CapWrite k \<in> set xs \<and> LinkFork k \<in> set xs"
    if eq: "trace s @ as = xs @ HandOff k v # ys" for k v xs ys
  proof (rule occurs_append_plain [where tr = "trace s" and as = as
        and Q = "\<lambda>xs. v = k + 1 \<and> CapWrite k \<in> set xs \<and> LinkFork k \<in> set xs", OF _ _ _ eq])
    show "v = k + 1 \<and> CapWrite k \<in> set xs \<and> LinkFork k \<in> set xs"
      if "trace s = xs @ HandOff k v # ys" for xs ys
      using inv that unfolding trace_inv_def by blast
    show "v = k + 1 \<and> CapWrite k \<in> set (trace s) \<and> LinkFork k \<in> set (trace s)"
      if "HandOff k v \<in> set as"
      using nw that unfolding news_ok_def by blast
  qed auto
  have 2: "CapWrite k \<in> set xs \<and> LinkFork k \<in> set xs \<and> HandOff k (k + 1) \<in> set xs"
    if eq: "trace s @ as = xs @ GateSent k v # ys" for k v xs ys
  proof (rule occurs_append_plain [where tr = "trace s" and as = as
        and Q = "\<lambda>xs. CapWrite k \<in> set xs \<and> LinkFork k \<in> set xs \<and> HandOff k (k + 1) \<in> set xs",
        OF _ _ _ eq])
    show "CapWrite k \<in> set xs \<and> LinkFork k \<in> set xs \<and> HandOff k (k + 1) \<in> set xs"
      if "trace s = xs @ GateSent k v # ys" for xs ys
      using inv that unfolding trace_inv_def by blast
    show "CapWrite k \<in> set (trace s) \<and> LinkFork k \<in> set (trace s) \<and> HandOff k (k + 1) \<in> set (trace s)"
      if "GateSent k v \<in> set as"
      using nw that unfolding news_ok_def by blast
  qed auto
  have 3: "GateSent (k - 1) k \<in> set xs \<and> GateRecv k k \<in> set xs"
    if k: "1 < k" and eq: "trace s @ as = xs @ Call k (Display th) # ys" and c: "no_gate_err xs"
    for k th xs ys
  proof (rule occurs_append [where C = no_gate_err and tr = "trace s" and as = as
        and Q = "\<lambda>xs. GateSent (k - 1) k \<in> set xs \<and> GateRecv k k \<in> set xs", OF _ _ _ _ eq c])
    show "GateSent (k - 1) k \<in> set xs \<and> GateRecv k k \<in> set xs"
      if "trace s = xs @ Call k (Display th) # ys" "no_gate_err xs" for xs ys
      using inv that k unfolding trace_inv_def by blast
    show "GateSent (k - 1) k \<in> set (trace s) \<and> GateRecv k k \<in> set (trace s)"
      if "Call k (Display th) \<in> set as" "no_gate_err (trace s)"
      using nw that k unfolding news_ok_def by blast
    show "no_gate_err xs" if "no_gate_err (xs @ us)" for xs us
      using that by (rule no_gate_err_prefix)
  qed auto
  have 4: "k \<noteq> 1 \<and> v \<le> length (items s)" if "TurnRecv k v \<in> set (trace s @ as)" for k v
    using that inv nw unfolding trace_inv_def news_ok_def by auto
  have 5: "GateRecv 1 v \<notin> set (trace s @ as)" for v
    using inv nw unfolding trace_inv_def news_ok_def by auto
  have 6: "GateErr 1 \<notin> set (trace s @ as)"
    using inv nw unfolding trace_inv_def news_ok_def by auto
  show ?thesis
    unfolding trace_inv_def tr it
  proof (intro conjI)
    show "\<forall>k v xs ys. trace s @ as = xs @ HandOff k v # ys \<longrightarrow>
        v = k + 1 \<and> CapWrite k \<in> set xs \<and> LinkFork k \<in> set xs"
      using 1 by blast
    show "\<forall>k v xs ys. trace s @ as = xs @ GateSent k v # ys \<longrightarrow>
        CapWrite k \<in> set xs \<and> LinkFork k \<in> set xs \<and> HandOff k (k + 1) \<in> set xs"
      using 2 by blast
    show "\<forall>k th xs ys. 1 < k \<and> trace s @ as = xs @ Call k (Display th) # ys \<and> no_gate_err xs \<longrightarrow>
        GateSent (k - 1) k \<in> set xs \<and> GateRecv k k \<in> set xs"
      using 3 by blast
    show "\<forall>k v. TurnRecv k v \<in> set (trace s @ as) \<longrightarrow> k \<noteq> 1 \<and> v \<le> length (items s)"
      using 4 by blast
    show "\<forall>v. GateRecv 1 v \<notin> set (trace s @ as)" using 5 by blast
    show "GateErr 1 \<notin> set (trace s @ as)" using 6 .
  qed
qed

lemma order_inv_step:
  assumes "order_inv s" and "step e s = Some s'"
  shows "order_inv s'"
  using assms by (cases e) (auto intro: order_inv_sched order_inv_work order_inv_html)

lemma inv3_step:
  assumes "inv3 s" and "step e s = Some s'"
  shows "inv3 s'"
proof -
  from assms(1) have i: "inv2 s" "order_inv s" "trace_inv s" by (simp_all add: inv3_def)
  from step_news [OF i(1,2) assms(2)] obtain as where
    "trace s' = trace s @ as" "items s' = items s" "news_ok s as" by blast
  from trace_inv_append [OF i(3) this] inv2_step [OF i(1) assms(2)] order_inv_step [OF i(2) assms(2)]
  show ?thesis by (simp add: inv3_def)
qed

lemma inv3_run:
  assumes "inv3 s" and "run es s = Some s'"
  shows "inv3 s'"
  using assms
proof (induction es arbitrary: s)
  case Nil
  then show ?case by simp
next
  case (Cons e es)
  then show ?case by (auto split: option.splits dest: inv3_step)
qed

lemma trace_inv_entry: "trace_inv (process_entry its f)"
  by (simp add: trace_inv_def process_entry_def)

lemma inv3_entry: "inv3 (process_entry its f)"
  by (simp add: inv3_def inv2_entry order_inv_entry trace_inv_entry)

lemma items_run:
  assumes "run es s = Some s'"
  shows "items s' = items s"
  using assms
proof (induction es arbitrary: s)
  case Nil
  then show ?case by simp
next
  case (Cons e es)
  from Cons.prems obtain s1 where s1: "step e s = Some s1" "run es s1 = Some s'"
    by (auto split: option.splits)
  have "items s1 = items s"
  proof (cases e)
    case (Sched oc)
    with s1(1) have "process_step oc s = Some s1" by simp
    then show ?thesis by (cases rule: sched_cases) simp_all
  next
    case (Work k oc)
    with s1(1) have "process_img_step k oc s = Some s1" by simp
    then show ?thesis by (cases rule: work_cases) simp_all
  next
    case (Html k oc)
    with s1(1) have "html_step k oc s = Some s1" by simp
    then show ?thesis by (cases rule: html_cases) simp_all
  qed
  with Cons.IH [OF s1(2)] show ?case by simp
qed

subsection \<open>Properties of the reachable states\<close>

lemma reach_inv3:
  assumes "run es (process_entry its f) = Some s"
  shows "inv3 s"
  using inv3_run [OF inv3_entry assms] .

lemma reach_items:
  assumes "run es (process_entry its f) = Some s"
  shows "items s = its"
  using items_run [OF assms] by (simp add: process_entry_def)

lemma work_alive:
  assumes "process_img_step k oc s = Some s'"
  shows "alive (pcs s k)"
    and "\<forall>j. j \<noteq> k \<longrightarrow> pcs s' j = pcs s j"
    and "alive (pcs s' k) \<or> (\<exists>r. pcs s' k = Exited r)"
proof -
  from assms show "alive (pcs s k)"
    by (cases rule: work_cases) (auto simp: die_point_def split: pc.splits)
  from assms show "\<forall>j. j \<noteq> k \<longrightarrow> pcs s' j = pcs s j"
    by (cases rule: work_cases) simp_all
  from assms show "alive (pcs s' k) \<or> (\<exists>r. pcs s' k = Exited r)"
    by (cases rule: work_cases) simp_all
qed

lemma pool_changes:
  assumes sch: "sched_inv s" and st: "step e s = Some s'"
    and ch: "alive (pcs s' k) \<noteq> alive (pcs s k)"
  shows "(\<exists>oc. e = Sched oc) \<and> spc s = SFork \<and> k = Suc (nspawned s) \<and>
           pcs s k = NotSpawned \<and> pcs s' k = Deriving \<or>
         (\<exists>oc r. e = Work k oc \<and> alive (pcs s k) \<and> pcs s' k = Exited r)"
proof (cases e)
  case (Sched oc)
  with st have "process_step oc s = Some s'" by simp
  then show ?thesis
  proof (cases rule: sched_cases)
    case Fork
    from sched_invD(5) [OF sch] Fork(1) have l: "loop_i s = nspawned s" by simp
    have un: "pcs s (Suc (nspawned s)) = NotSpawned"
      using sched_invD(3) [OF sch, of "Suc (nspawned s)"] by simp
    from ch Fork(2) l have "k = Suc (nspawned s)" by (cases "k = Suc (nspawned s)") simp_all
    with Fork l un Sched show ?thesis by simp
  qed (use ch in simp_all)
next
  case (Work j oc)
  with st have w: "process_img_step j oc s = Some s'" by simp
  note a = work_alive [OF w]
  from ch a(2) have "k = j" by (cases "k = j") simp_all
  with a(1,3) ch Work show ?thesis by auto
next
  case (Html j oc)
  with st have "html_step j oc s = Some s'" by simp
  then show ?thesis using ch by (cases rule: html_cases) simp
qed

lemma poll_counts_alive:
  assumes sch: "sched_inv s"
  shows "nalive s \<le> concurrent (pcs s) orc (pid s)"
proof -
  note d = sched_invD [OF sch]
  have "nalive s = length (filter (\<lambda>k. alive (pcs s k)) [1..<Suc (nspawned s)])"
    unfolding nalive_def using d(3) by (intro alive_card) blast
  also have "\<dots> \<le> concurrent (pcs s) orc (pid s)"
    unfolding d(4) by (rule concurrent_lower)
  finally show ?thesis .
qed

text \<open>
  Claim C4. In every state the system can reach from the entry of \<^verbatim>\<open>process\<close>, at most
  \<open>max_conversions\<close> = 3 workers are alive. Before each fork the scheduler polls
  \<^verbatim>\<open>concurrent\<close>, which counts at least the workers alive, and sleeps while the count is
  3 or more; it forks only after a poll below 3. A worker joins the alive ones only by the
  scheduler's fork and leaves them only by its own exit, and the forks are those of
  the indices 1, 2, 3, ... in this order.
\<close>

theorem active_workers_bounded:
  "run es (process_entry its f) = Some s \<longrightarrow>
     nalive s \<le> max_conversions \<and> max_conversions = 3 \<and>
     (spc s = SPoll \<longrightarrow>
        nalive s \<le> concurrent (pcs s) (junk_of oc) (pid s) \<and>
        process_step oc s =
          Some (if max_conversions \<le> concurrent (pcs s) (junk_of oc) (pid s) then s
                else s\<lparr>spc := SFork\<rparr>)) \<and>
     (spc s = SFork \<longrightarrow> nalive s < max_conversions) \<and>
     (\<forall>e s' k. step e s = Some s' \<and> alive (pcs s' k) \<noteq> alive (pcs s k) \<longrightarrow>
        (\<exists>oc. e = Sched oc) \<and> spc s = SFork \<and> k = Suc (nspawned s) \<and>
          pcs s k = NotSpawned \<and> pcs s' k = Deriving \<or>
        (\<exists>oc r. e = Work k oc \<and> alive (pcs s k) \<and> pcs s' k = Exited r)) \<and>
     filter is_spawn (trace s) = map Spawn [1..<Suc (nspawned s)]"
proof
  assume r: "run es (process_entry its f) = Some s"
  from reach_inv3 [OF r] have sch: "sched_inv s" by (simp add: inv3_def inv2_def)
  note d = sched_invD [OF sch]
  have "process_step oc s =
          Some (if max_conversions \<le> concurrent (pcs s) (junk_of oc) (pid s) then s
                else s\<lparr>spc := SFork\<rparr>)" if "spc s = SPoll"
    using that by (simp add: process_step_simps)
  with d(2,7,8) poll_counts_alive [OF sch] pool_changes [OF sch]
  show "nalive s \<le> max_conversions \<and> max_conversions = 3 \<and>
     (spc s = SPoll \<longrightarrow>
        nalive s \<le> concurrent (pcs s) (junk_of oc) (pid s) \<and>
        process_step oc s =
          Some (if max_conversions \<le> concurrent (pcs s) (junk_of oc) (pid s) then s
                else s\<lparr>spc := SFork\<rparr>)) \<and>
     (spc s = SFork \<longrightarrow> nalive s < max_conversions) \<and>
     (\<forall>e s' k. step e s = Some s' \<and> alive (pcs s' k) \<noteq> alive (pcs s k) \<longrightarrow>
        (\<exists>oc. e = Sched oc) \<and> spc s = SFork \<and> k = Suc (nspawned s) \<and>
          pcs s k = NotSpawned \<and> pcs s' k = Deriving \<or>
        (\<exists>oc r. e = Work k oc \<and> alive (pcs s k) \<and> pcs s' k = Exited r)) \<and>
     filter is_spawn (trace s) = map Spawn [1..<Suc (nspawned s)]"
    by (simp add: max_conversions_def del: upt_Suc)
qed

lemmas step_defs = process_step_def process_img_step_def html_step_def process_entry_def goto_def die_def
  Let_def cap_html_def img_html_def fopen_def ask_user_def rotate_calls_def text_of_def junk_of_def
  max_conversions_def cstr_def thumb_name_def med_name_def img_of_def

theorem active_workers_bounded_witness:
  "\<exists>s. run four_items_polling (process_entry [''a.jpg'', ''b.jpg'', ''c.jpg'', ''d.jpg''] None) = Some s \<and>
       spc s = SPoll \<and> nalive s \<le> 3 \<and> process_step (Junk []) s = Some s \<and>
       filter is_spawn (trace s) = [Spawn 1, Spawn 2, Spawn 3]"
proof -
  obtain s where r: "run four_items_polling (process_entry [''a.jpg'', ''b.jpg'', ''c.jpg'', ''d.jpg''] None) = Some s"
    and p: "spc s = SPoll" and c: "concurrent (pcs s) [] (pid s) = 3"
    and t: "trace s = [Spawn 1, Spawn 2, Spawn 3]"
    by (simp add: four_items_polling_def step_defs)
  from active_workers_bounded [of four_items_polling "[''a.jpg'', ''b.jpg'', ''c.jpg'', ''d.jpg'']" None s "Junk []"]
    r p c t
  show ?thesis by (simp add: junk_of_def)
qed

lemma reach_parts:
  assumes "run es (process_entry its f) = Some s"
  shows "sched_inv s" and "turn_inv s" and "order_inv s" and "trace_inv s"
  using reach_inv3 [OF assms] by (simp_all add: inv3_def inv2_def)

text \<open>
  The turn ring. In every reachable state: a worker polling the turn pipe that reads a value
  other than its index goes on to write that same value back and then polls again; one
  that reads its own index leaves the loop for its report writes; the hand-off is the
  value index + 1, written after the worker has forked its \<^verbatim>\<open>img_html\<close> child and has
  written its caption. Worker 1 never polls and never reads the pipe, and no worker
  ever reads the value N + 1.
\<close>

lemma turn_taking:
  "run es (process_entry its f) = Some s \<longrightarrow>
     (\<forall>k v rest oc. pcs s k = Polling \<and> ptp2 s = v # rest \<and> oc \<noteq> Err \<longrightarrow>
        process_img_step k oc s =
          Some (goto k (if k \<noteq> v then Resending v else ForkHtml) [TurnRecv k v] (s\<lparr>ptp2 := rest\<rparr>))) \<and>
     (\<forall>k v oc. pcs s k = Resending v \<and> oc \<noteq> Err \<longrightarrow>
        process_img_step k oc s = Some (goto k Polling [Resent k v] (s\<lparr>ptp2 := ptp2 s @ [v]\<rparr>))) \<and>
     (\<forall>k oc. pcs s k = SendTurn \<and> oc \<noteq> Err \<longrightarrow>
        process_img_step k oc s =
          Some (goto k SendGate [HandOff k (k + 1)] (s\<lparr>ptp2 := ptp2 s @ [k + 1]\<rparr>))) \<and>
     (\<forall>k v xs ys. trace s = xs @ HandOff k v # ys \<longrightarrow>
        v = k + 1 \<and> CapWrite k \<in> set xs \<and> LinkFork k \<in> set xs) \<and>
     (\<forall>oc. pcs s 1 = Deriving \<longrightarrow>
        process_img_step 1 oc s = Some (goto 1 ForkHtml
          [Call 1 (Resize (items s ! 0) (thumb_name (items s ! 0)) ''10%''),
           Call 1 (Resize (items s ! 0) (med_name (items s ! 0)) ''25%'')] s)) \<and>
     pcs s 1 \<noteq> Polling \<and> (\<forall>v. pcs s 1 \<noteq> Resending v) \<and> (\<forall>v. TurnRecv 1 v \<notin> set (trace s)) \<and>
     (\<forall>k. TurnRecv k (length its + 1) \<notin> set (trace s))"
proof
  assume r: "run es (process_entry its f) = Some s"
  note p = reach_parts [OF r]
  note t = turn_invD [OF p(2)]
  have a: "v = k + 1 \<and> CapWrite k \<in> set xs \<and> LinkFork k \<in> set xs"
    if "trace s = xs @ HandOff k v # ys" for k v xs ys
    using p(4) that unfolding trace_inv_def by blast
  have b: "k \<noteq> 1 \<and> v \<le> length its" if "TurnRecv k v \<in> set (trace s)" for k v
    using p(4) that reach_items [OF r] unfolding trace_inv_def by auto
  have c: "pcs s 1 \<noteq> Polling" "pcs s 1 \<noteq> Resending v" for v
    using t(3) by auto
  have d: "TurnRecv 1 v \<notin> set (trace s)" "TurnRecv k (length its + 1) \<notin> set (trace s)" for v k
    using b [of 1 v] b [of k "length its + 1"] by auto
  have e: "\<forall>k v rest oc. pcs s k = Polling \<and> ptp2 s = v # rest \<and> oc \<noteq> Err \<longrightarrow>
        process_img_step k oc s =
          Some (goto k (if k \<noteq> v then Resending v else ForkHtml) [TurnRecv k v] (s\<lparr>ptp2 := rest\<rparr>))"
    by (simp add: img_step_simps(4))
  have g: "\<forall>k v oc. pcs s k = Resending v \<and> oc \<noteq> Err \<longrightarrow>
        process_img_step k oc s = Some (goto k Polling [Resent k v] (s\<lparr>ptp2 := ptp2 s @ [v]\<rparr>))"
    by (simp add: img_step_simps(5))
  have h: "\<forall>k oc. pcs s k = SendTurn \<and> oc \<noteq> Err \<longrightarrow>
        process_img_step k oc s =
          Some (goto k SendGate [HandOff k (k + 1)] (s\<lparr>ptp2 := ptp2 s @ [k + 1]\<rparr>))"
    by (simp add: img_step_simps(14))
  have i: "\<forall>oc. pcs s 1 = Deriving \<longrightarrow>
        process_img_step 1 oc s = Some (goto 1 ForkHtml
          [Call 1 (Resize (items s ! 0) (thumb_name (items s ! 0)) ''10%''),
           Call 1 (Resize (items s ! 0) (med_name (items s ! 0)) ''25%'')] s)"
    by (simp add: img_step_simps(3))
  from a c d e g h i
  show "(\<forall>k v rest oc. pcs s k = Polling \<and> ptp2 s = v # rest \<and> oc \<noteq> Err \<longrightarrow>
        process_img_step k oc s =
          Some (goto k (if k \<noteq> v then Resending v else ForkHtml) [TurnRecv k v] (s\<lparr>ptp2 := rest\<rparr>))) \<and>
     (\<forall>k v oc. pcs s k = Resending v \<and> oc \<noteq> Err \<longrightarrow>
        process_img_step k oc s = Some (goto k Polling [Resent k v] (s\<lparr>ptp2 := ptp2 s @ [v]\<rparr>))) \<and>
     (\<forall>k oc. pcs s k = SendTurn \<and> oc \<noteq> Err \<longrightarrow>
        process_img_step k oc s =
          Some (goto k SendGate [HandOff k (k + 1)] (s\<lparr>ptp2 := ptp2 s @ [k + 1]\<rparr>))) \<and>
     (\<forall>k v xs ys. trace s = xs @ HandOff k v # ys \<longrightarrow>
        v = k + 1 \<and> CapWrite k \<in> set xs \<and> LinkFork k \<in> set xs) \<and>
     (\<forall>oc. pcs s 1 = Deriving \<longrightarrow>
        process_img_step 1 oc s = Some (goto 1 ForkHtml
          [Call 1 (Resize (items s ! 0) (thumb_name (items s ! 0)) ''10%''),
           Call 1 (Resize (items s ! 0) (med_name (items s ! 0)) ''25%'')] s)) \<and>
     pcs s 1 \<noteq> Polling \<and> (\<forall>v. pcs s 1 \<noteq> Resending v) \<and> (\<forall>v. TurnRecv 1 v \<notin> set (trace s)) \<and>
     (\<forall>k. TurnRecv k (length its + 1) \<notin> set (trace s))"
    by blast
qed

lemma turn_taking_example:
  "\<exists>s. run second_at_gate (process_entry [''a.jpg'', ''b.jpg''] None) = Some s \<and>
       HandOff 1 2 \<in> set (trace s) \<and> TurnRecv 2 2 \<in> set (trace s) \<and>
       (\<forall>k. TurnRecv k 3 \<notin> set (trace s)) \<and> (\<forall>v. TurnRecv 1 v \<notin> set (trace s)) \<and>
       pcs s 1 = SendGate \<and> pcs s 2 = GateWait"
proof -
  obtain s where r: "run second_at_gate (process_entry [''a.jpg'', ''b.jpg''] None) = Some s"
    and p: "HandOff 1 2 \<in> set (trace s)" "TurnRecv 2 2 \<in> set (trace s)"
      "pcs s 1 = SendGate" "pcs s 2 = GateWait"
    by (simp add: second_at_gate_def step_defs)
  from turn_taking [of second_at_gate "[''a.jpg'', ''b.jpg'']" None s] r p
  show ?thesis by (simp add: numeral_3_eq_3)
qed

text \<open>
  Claim C3, as amended. Worker 1 never reads the gate pipe. A worker k > 1 reads it
  before its display step and blocks while it is empty; in a run where no gate read has
  failed so far, the display of k starts only after worker k - 1 has sent its signal
  and k has received it. A gate read that fails is logged and the worker goes on to
  display. A worker sends its signal only after forking its \<^verbatim>\<open>img_html\<close> child, writing
  its caption and handing the turn on.
\<close>

theorem gated_display:
  "run es (process_entry its f) = Some s \<longrightarrow>
     pcs s 1 \<noteq> GateWait \<and> (\<forall>v. GateRecv 1 v \<notin> set (trace s)) \<and> GateErr 1 \<notin> set (trace s) \<and>
     (\<forall>oc. pcs s 1 = WaitThumb \<longrightarrow> process_img_step 1 oc s = Some (goto 1 Displaying [] s)) \<and>
     (\<forall>k oc. k \<noteq> 1 \<and> pcs s k = WaitThumb \<longrightarrow> process_img_step k oc s = Some (goto k GateWait [] s)) \<and>
     (\<forall>k oc. pcs s k = GateWait \<and> oc \<noteq> Err \<and> ptp1 s = [] \<longrightarrow> process_img_step k oc s = None) \<and>
     (\<forall>k. pcs s k = GateWait \<longrightarrow>
        process_img_step k Err s = Some (goto k Displaying [GateErr k] s)) \<and>
     (\<forall>k th xs ys. 1 < k \<and> trace s = xs @ Call k (Display th) # ys \<and> no_gate_err xs \<longrightarrow>
        GateSent (k - 1) k \<in> set xs \<and> GateRecv k k \<in> set xs) \<and>
     (\<forall>k v xs ys. trace s = xs @ GateSent k v # ys \<longrightarrow>
        CapWrite k \<in> set xs \<and> LinkFork k \<in> set xs \<and> HandOff k (k + 1) \<in> set xs)"
proof
  assume r: "run es (process_entry its f) = Some s"
  note p = reach_parts [OF r]
  note t = turn_invD [OF p(2)]
  have a: "GateSent (k - 1) k \<in> set xs \<and> GateRecv k k \<in> set xs"
    if "1 < k" "trace s = xs @ Call k (Display th) # ys" "no_gate_err xs" for k th xs ys
    using p(4) that unfolding trace_inv_def by blast
  have b: "CapWrite k \<in> set xs \<and> LinkFork k \<in> set xs \<and> HandOff k (k + 1) \<in> set xs"
    if "trace s = xs @ GateSent k v # ys" for k v xs ys
    using p(4) that unfolding trace_inv_def by blast
  have c: "GateRecv 1 v \<notin> set (trace s)" "GateErr 1 \<notin> set (trace s)" for v
    using p(4) unfolding trace_inv_def by blast+
  have e: "\<forall>oc. pcs s 1 = WaitThumb \<longrightarrow> process_img_step 1 oc s = Some (goto 1 Displaying [] s)"
    by (simp add: img_step_simps(7))
  have g: "\<forall>k oc. k \<noteq> 1 \<and> pcs s k = WaitThumb \<longrightarrow> process_img_step k oc s = Some (goto k GateWait [] s)"
    by (simp add: img_step_simps(7))
  have h: "\<forall>k oc. pcs s k = GateWait \<and> oc \<noteq> Err \<and> ptp1 s = [] \<longrightarrow> process_img_step k oc s = None"
    by (simp add: img_step_simps(8))
  have i: "\<forall>k. pcs s k = GateWait \<longrightarrow>
        process_img_step k Err s = Some (goto k Displaying [GateErr k] s)"
    by (simp add: img_step_simps(8))
  from a b c t(4) e g h i
  show "pcs s 1 \<noteq> GateWait \<and> (\<forall>v. GateRecv 1 v \<notin> set (trace s)) \<and> GateErr 1 \<notin> set (trace s) \<and>
     (\<forall>oc. pcs s 1 = WaitThumb \<longrightarrow> process_img_step 1 oc s = Some (goto 1 Displaying [] s)) \<and>
     (\<forall>k oc. k \<noteq> 1 \<and> pcs s k = WaitThumb \<longrightarrow> process_img_step k oc s = Some (goto k GateWait [] s)) \<and>
     (\<forall>k oc. pcs s k = GateWait \<and> oc \<noteq> Err \<and> ptp1 s = [] \<longrightarrow> process_img_step k oc s = None) \<and>
     (\<forall>k. pcs s k = GateWait \<longrightarrow>
        process_img_step k Err s = Some (goto k Displaying [GateErr k] s)) \<and>
     (\<forall>k th xs ys. 1 < k \<and> trace s = xs @ Call k (Display th) # ys \<and> no_gate_err xs \<longrightarrow>
        GateSent (k - 1) k \<in> set xs \<and> GateRecv k k \<in> set xs) \<and>
     (\<forall>k v xs ys. trace s = xs @ GateSent k v # ys \<longrightarrow>
        CapWrite k \<in> set xs \<and> LinkFork k \<in> set xs \<and> HandOff k (k + 1) \<in> set xs)"
    by blast
qed

theorem gated_display_witness:
  "\<exists>s. run (second_at_gate @ [Work 1 Ok, Work 2 Ok, Work 2 Ok])
         (process_entry [''a.jpg'', ''b.jpg''] None) = Some s \<and>
       trace s = take 19 (trace s) @ Call 2 (Display ''thumb_b.jpg'') # [] \<and>
       GateSent 1 2 \<in> set (take 19 (trace s)) \<and> GateRecv 2 2 \<in> set (take 19 (trace s)) \<and>
       GateErr 1 \<notin> set (trace s)"
proof -
  obtain s where r: "run (second_at_gate @ [Work 1 Ok, Work 2 Ok, Work 2 Ok])
         (process_entry [''a.jpg'', ''b.jpg''] None) = Some s"
    and t: "trace s = take 19 (trace s) @ Call 2 (Display ''thumb_b.jpg'') # []"
    and n: "no_gate_err (take 19 (trace s))"
    by (simp add: second_at_gate_def step_defs no_gate_err_def)
  from gated_display [of "second_at_gate @ [Work 1 Ok, Work 2 Ok, Work 2 Ok]" "[''a.jpg'', ''b.jpg'']" None s] r
  have "(\<forall>k th xs ys. 1 < k \<and> trace s = xs @ Call k (Display th) # ys \<and> no_gate_err xs \<longrightarrow>
        GateSent (k - 1) k \<in> set xs \<and> GateRecv k k \<in> set xs) \<and> GateErr 1 \<notin> set (trace s)"
    by blast
  with t n have "GateSent (2 - 1) 2 \<in> set (take 19 (trace s)) \<and> GateRecv 2 2 \<in> set (take 19 (trace s))"
    and "GateErr 1 \<notin> set (trace s)"
    by (metis one_less_numeral_iff semiring_norm(76))+
  with r t show ?thesis by simp
qed

text \<open>
  Claim C3 as stated fails when the read of the gate pipe fails: worker 2 starts its
  display while worker 1 has not sent its signal.
\<close>

theorem display_before_gate_signal:
  "run (second_at_gate @ [Work 2 Err, Work 2 Ok]) (process_entry [''a.jpg'', ''b.jpg''] None) \<noteq> None \<and>
   Call 2 (Display ''thumb_b.jpg'') \<in>
     set (trace (the (run (second_at_gate @ [Work 2 Err, Work 2 Ok]) (process_entry [''a.jpg'', ''b.jpg''] None)))) \<and>
   GateSent 1 2 \<notin>
     set (trace (the (run (second_at_gate @ [Work 2 Err, Work 2 Ok]) (process_entry [''a.jpg'', ''b.jpg''] None)))) \<and>
   GateRecv 2 2 \<notin>
     set (trace (the (run (second_at_gate @ [Work 2 Err, Work 2 Ok]) (process_entry [''a.jpg'', ''b.jpg''] None)))) \<and>
   pcs (the (run (second_at_gate @ [Work 2 Err, Work 2 Ok]) (process_entry [''a.jpg'', ''b.jpg''] None))) 1 = SendGate"
  by (simp add: second_at_gate_def step_defs)

lemma die_simps [simp]:
  "pcs (die k s) = (pcs s)(k := Exited (- 1))" "spc (die k s) = spc s" "ptp1 (die k s) = ptp1 s"
  "ptp2 (die k s) = ptp2 s" "index_html (die k s) = index_html s" "items (die k s) = items s"
  by (simp_all add: die_def)

lemma sibling_enabled:
  assumes "j \<noteq> k"
  shows "process_img_step j oc (die k s) = None \<longleftrightarrow> process_img_step j oc s = None"
proof -
  have p: "pcs (die k s) j = pcs s j" using assms by simp
  show ?thesis
  proof (cases "pcs s j")
    case Polling
    with p show ?thesis by (simp add: img_step_simps(4) split: list.splits)
  next
    case GateWait
    with p show ?thesis by (simp add: img_step_simps(8) split: list.splits)
  next
    case (CapHtml c)
    with p show ?thesis by (simp add: img_step_simps(13))
  qed (use p in \<open>simp_all add: img_step_simps\<close>)
qed

text \<open>
  Claim C9, as amended. A failed \<^verbatim>\<open>pipe\<close> makes \<^verbatim>\<open>process\<close> return -1 with no worker forked
  and no further step. A failed read or write of the turn pipe, and a failed write of
  the gate pipe, end that worker with \<^verbatim>\<open>exit(-1)\<close> (status 255, against 0 for a normal
  end) and change nothing else: every other worker keeps its control point and can
  step exactly when it could before. A failed read of the gate pipe does not end the
  worker: it logs the error and goes on to display.
\<close>

theorem channel_failures:
  "process_step Err (process_entry its f) =
     Some ((process_entry its f)\<lparr>spc := SReturned (- 1),
             stderr := [''failed to create a pipe'' @ [newline]]\<rparr>) \<and>
   (\<forall>es s'. run es ((process_entry its f)\<lparr>spc := SReturned (- 1),
             stderr := [''failed to create a pipe'' @ [newline]]\<rparr>) = Some s' \<longrightarrow> es = []) \<and>
   (pcs s k = Polling \<or> (\<exists>v. pcs s k = Resending v) \<or> pcs s k = SendTurn \<or> pcs s k = SendGate \<longrightarrow>
      process_img_step k Err s = Some (die k s) \<and>
      pcs (die k s) k = Exited (- 1) \<and> exit_status (- 1) = 255 \<and> exit_status 0 = 0 \<and>
      spc (die k s) = spc s \<and> ptp1 (die k s) = ptp1 s \<and> ptp2 (die k s) = ptp2 s \<and>
      index_html (die k s) = index_html s \<and>
      (\<forall>j. j \<noteq> k \<longrightarrow> pcs (die k s) j = pcs s j \<and>
           (\<forall>oc. process_img_step j oc (die k s) = None \<longleftrightarrow> process_img_step j oc s = None))) \<and>
   (pcs s k = GateWait \<longrightarrow> process_img_step k Err s = Some (goto k Displaying [GateErr k] s))"
proof (intro conjI)
  show "process_step Err (process_entry its f) =
     Some ((process_entry its f)\<lparr>spc := SReturned (- 1),
             stderr := [''failed to create a pipe'' @ [newline]]\<rparr>)"
    by (simp add: process_step_def process_entry_def)
  show "\<forall>es s'. run es ((process_entry its f)\<lparr>spc := SReturned (- 1),
             stderr := [''failed to create a pipe'' @ [newline]]\<rparr>) = Some s' \<longrightarrow> es = []"
  proof (intro allI impI)
    fix es s'
    assume "run es ((process_entry its f)\<lparr>spc := SReturned (- 1),
             stderr := [''failed to create a pipe'' @ [newline]]\<rparr>) = Some s'"
    then show "es = []"
      using run_returned [of "(process_entry its f)\<lparr>spc := SReturned (- 1),
             stderr := [''failed to create a pipe'' @ [newline]]\<rparr>" "- 1" es s']
      by (simp add: process_entry_def)
  qed
  show "pcs s k = GateWait \<longrightarrow> process_img_step k Err s = Some (goto k Displaying [GateErr k] s)"
    by (simp add: img_step_simps(8))
  show "pcs s k = Polling \<or> (\<exists>v. pcs s k = Resending v) \<or> pcs s k = SendTurn \<or> pcs s k = SendGate \<longrightarrow>
      process_img_step k Err s = Some (die k s) \<and>
      pcs (die k s) k = Exited (- 1) \<and> exit_status (- 1) = 255 \<and> exit_status 0 = 0 \<and>
      spc (die k s) = spc s \<and> ptp1 (die k s) = ptp1 s \<and> ptp2 (die k s) = ptp2 s \<and>
      index_html (die k s) = index_html s \<and>
      (\<forall>j. j \<noteq> k \<longrightarrow> pcs (die k s) j = pcs s j \<and>
           (\<forall>oc. process_img_step j oc (die k s) = None \<longleftrightarrow> process_img_step j oc s = None))"
  proof
    assume a: "pcs s k = Polling \<or> (\<exists>v. pcs s k = Resending v) \<or> pcs s k = SendTurn \<or> pcs s k = SendGate"
    then have "process_img_step k Err s = Some (die k s)"
      by (auto simp: img_step_simps die_goto)
    then show "process_img_step k Err s = Some (die k s) \<and>
      pcs (die k s) k = Exited (- 1) \<and> exit_status (- 1) = 255 \<and> exit_status 0 = 0 \<and>
      spc (die k s) = spc s \<and> ptp1 (die k s) = ptp1 s \<and> ptp2 (die k s) = ptp2 s \<and>
      index_html (die k s) = index_html s \<and>
      (\<forall>j. j \<noteq> k \<longrightarrow> pcs (die k s) j = pcs s j \<and>
           (\<forall>oc. process_img_step j oc (die k s) = None \<longleftrightarrow> process_img_step j oc s = None))"
      using sibling_enabled [of _ k _ s] by (simp add: exit_status_def)
  qed
qed

theorem channel_failures_witness:
  "\<exists>s. run second_at_gate (process_entry [''a.jpg'', ''b.jpg''] None) = Some s \<and>
       pcs s 1 = SendGate \<and> pcs s 2 = GateWait \<and>
       process_img_step 1 Err s = Some (die 1 s) \<and> pcs (die 1 s) 1 = Exited (- 1) \<and>
       pcs (die 1 s) 2 = GateWait \<and>
       process_img_step 2 Err s = Some (goto 2 Displaying [GateErr 2] s) \<and>
       run [Sched Err, Sched Ok] (process_entry [''a.jpg'', ''b.jpg''] None) = None"
proof -
  obtain s where r: "run second_at_gate (process_entry [''a.jpg'', ''b.jpg''] None) = Some s"
    and p: "pcs s 1 = SendGate" "pcs s 2 = GateWait"
    by (simp add: second_at_gate_def step_defs)
  have n: "run [Sched Err, Sched Ok] (process_entry [''a.jpg'', ''b.jpg''] None) = None"
    by (simp add: step_defs)
  from channel_failures [of "[''a.jpg'', ''b.jpg'']" None s 1] channel_failures [of "[''a.jpg'', ''b.jpg'']" None s 2]
    r p n
  show ?thesis by simp
qed

text \<open>
  Claim C9 as stated fails for the read of the gate pipe: after the failure worker 2 is
  at its display step and has not exited.
\<close>

theorem gate_receive_failure_continues:
  "run (second_at_gate @ [Work 2 Err]) (process_entry [''a.jpg'', ''b.jpg''] None) \<noteq> None \<and>
   pcs (the (run second_at_gate (process_entry [''a.jpg'', ''b.jpg''] None))) 2 = GateWait \<and>
   pcs (the (run (second_at_gate @ [Work 2 Err]) (process_entry [''a.jpg'', ''b.jpg''] None))) 2 = Displaying \<and>
   GateErr 2 \<in> set (trace (the (run (second_at_gate @ [Work 2 Err]) (process_entry [''a.jpg'', ''b.jpg''] None)))) \<and>
   Exit 2 (- 1) \<notin> set (trace (the (run (second_at_gate @ [Work 2 Err]) (process_entry [''a.jpg'', ''b.jpg''] None))))"
  by (simp add: second_at_gate_def step_defs)

text \<open>
  Claim C2 fails on the code in its order of report writes and hand-off. The worker
  re-emits a foreign turn value unchanged, leaves the loop on its own index and hands
  on index + 1 (lemma \<open>turn_taking\<close>), but of its two report writes only the caption is
  written when it hands the turn on: the link is written by a child that is forked and
  never waited for. In this run, in which no call fails, worker 1 hands on the value 2
  while the report holds its caption alone and its \<^verbatim>\<open>img_html\<close> child has not run;
  worker 2 then reads the 2 and its link is written behind that caption.
\<close>

theorem hand_off_before_link_write:
  "run hand_off_before_link (process_entry [''a.jpg'', ''b.jpg''] None) \<noteq> None \<and>
   report_writes (trace (the (run hand_off_before_link (process_entry [''a.jpg'', ''b.jpg''] None)))) =
     [CapWrite 1] \<and>
   last (trace (the (run hand_off_before_link (process_entry [''a.jpg'', ''b.jpg''] None)))) = HandOff 1 2 \<and>
   ptp2 (the (run hand_off_before_link (process_entry [''a.jpg'', ''b.jpg''] None))) = [2] \<and>
   html (the (run hand_off_before_link (process_entry [''a.jpg'', ''b.jpg''] None))) 1 = HPending \<and>
   index_html (the (run hand_off_before_link (process_entry [''a.jpg'', ''b.jpg''] None))) =
     Some (caption_block ''Sunset'') \<and>
   run (hand_off_before_link @ [Work 2 Ok, Work 2 Ok, Html 2 Ok]) (process_entry [''a.jpg'', ''b.jpg''] None) \<noteq> None \<and>
   report_writes (trace (the (run (hand_off_before_link @ [Work 2 Ok, Work 2 Ok, Html 2 Ok])
       (process_entry [''a.jpg'', ''b.jpg''] None)))) = [CapWrite 1, LinkWrite 2] \<and>
   TurnRecv 2 2 \<in> set (trace (the (run (hand_off_before_link @ [Work 2 Ok, Work 2 Ok, Html 2 Ok])
       (process_entry [''a.jpg'', ''b.jpg''] None)))) \<and>
   html (the (run (hand_off_before_link @ [Work 2 Ok, Work 2 Ok, Html 2 Ok])
       (process_entry [''a.jpg'', ''b.jpg''] None))) 1 = HPending \<and>
   index_html (the (run (hand_off_before_link @ [Work 2 Ok, Work 2 Ok, Html 2 Ok])
       (process_entry [''a.jpg'', ''b.jpg''] None))) =
     Some (caption_block ''Sunset'' @ link_block ''med_b.jpg'' ''thumb_b.jpg'')"
  by (simp add: hand_off_before_link_def step_defs report_writes_def)

text \<open>
  Claim C1 fails on the code. The child forked for \<^verbatim>\<open>img_html\<close> is never waited for, so
  it can run after its parent's \<^verbatim>\<open>cap_html\<close> and after the next worker's link write. In
  this run of two items the link of item 1 is written after the caption of item 1 and
  after the link of item 2, and, opening the file with mode \<open>w\<close>, leaves the link of
  item 1 as the whole report.
\<close>

theorem late_link_write_two_items:
  "run two_items_late_link (process_entry [''a.jpg'', ''b.jpg''] None) \<noteq> None \<and>
   pcs (the (run two_items_late_link (process_entry [''a.jpg'', ''b.jpg''] None))) 1 = Exited 0 \<and>
   report_writes (trace (the (run two_items_late_link (process_entry [''a.jpg'', ''b.jpg''] None)))) =
     [CapWrite 1, LinkWrite 2, LinkWrite 1] \<and>
   index_html (the (run two_items_late_link (process_entry [''a.jpg'', ''b.jpg''] None))) =
     Some (link_block ''med_a.jpg'' ''thumb_a.jpg'')"
  by (simp add: two_items_late_link_def step_defs report_writes_def)

text \<open>
  Claim C8. \<^verbatim>\<open>img_html\<close> opens the report with \<open>w\<close> for index 1 and with \<open>a\<close> otherwise,
  \<^verbatim>\<open>cap_html\<close> always with \<open>a\<close>. When the \<^verbatim>\<open>img_html\<close> child runs before the caption is
  written, a run on one item leaves exactly the link followed by the caption, with
  nothing of the earlier file. The child is not waited for: when it runs after
  \<^verbatim>\<open>cap_html\<close>, the finished run leaves the link alone and the caption is lost.
\<close>

theorem late_link_write_one_item:
  "img_html thumb med order Ok prev =
     (Some ((if order = 1 then [] else case prev of None \<Rightarrow> [] | Some c \<Rightarrow> c) @ link_block med thumb), 0) \<and>
   cap_html cap Ok prev = (Some ((case prev of None \<Rightarrow> [] | Some c \<Rightarrow> c) @ caption_block cap), 0) \<and>
   run one_item_in_order (process_entry [''a.jpg''] (Some ''OLD'')) \<noteq> None \<and>
   index_html (the (run one_item_in_order (process_entry [''a.jpg''] (Some ''OLD'')))) =
     Some (link_block ''med_a.jpg'' ''thumb_a.jpg'' @ caption_block ''Sunset'') \<and>
   run one_item_late_link (process_entry [''a.jpg''] (Some ''OLD'')) \<noteq> None \<and>
   spc (the (run one_item_late_link (process_entry [''a.jpg''] (Some ''OLD'')))) = SReturned 0 \<and>
   pcs (the (run one_item_late_link (process_entry [''a.jpg''] (Some ''OLD'')))) 1 = Exited 0 \<and>
   report_writes (trace (the (run one_item_late_link (process_entry [''a.jpg''] (Some ''OLD''))))) =
     [CapWrite 1, LinkWrite 1] \<and>
   index_html (the (run one_item_late_link (process_entry [''a.jpg''] (Some ''OLD'')))) =
     Some (link_block ''med_a.jpg'' ''thumb_a.jpg'')"
  by (simp add: one_item_late_link_def one_item_in_order_def step_defs report_writes_def)

end
